theory Spec2Isabelle
  imports Complex_Main "HOL-Library.Word" "HOL-Library.Log_Nat"
begin

section \<open>Floating-point data\<close>

text \<open>
  The file \<^verbatim>\<open>compiler_rt_stubs.c\<close> implements the quad-precision runtime entry points
  on \<^verbatim>\<open>typedef long double fp128\<close>. Every routine is one native operator or cast, so
  the embedding consists of the operands' data and of the native operators.

  A floating-point datum is a NaN, a signed infinity, or a finite number
  \<open>(-1)\<^sup>s * m * 2\<^sup>e\<close> given by its sign \<open>s\<close> (\<open>True\<close> is negative), its integral
  significand \<open>m\<close> and its exponent \<open>e\<close>. A zero is a finite number with \<open>m = 0\<close>
  and keeps its sign.
\<close>

datatype fp = NaN | Inf bool | Fin bool nat int

text \<open>
  The width of \<^verbatim>\<open>long double\<close> is fixed by the platform, not by the file (its header
  comment: 80-bit on x86, 64-bit on ARM). A format is a precision \<open>prec\<close> in bits and a
  largest exponent \<open>emax\<close>; the routines that round take the format of
  \<^verbatim>\<open>long double\<close> as their first argument \<open>ld\<close>.
\<close>

record format =
  prec :: nat
  emax :: int

definition binary32 :: format where
  "binary32 = \<lparr>prec = 24, emax = 127\<rparr>"

definition binary64 :: format where
  "binary64 = \<lparr>prec = 53, emax = 1023\<rparr>"

definition x87_extended :: format where
  "x87_extended = \<lparr>prec = 64, emax = 16383\<rparr>"

text \<open>Smallest and largest exponent of an integral significand.\<close>

definition qmin :: "format \<Rightarrow> int" where
  "qmin fmt = 2 - emax fmt - int (prec fmt)"

definition qmax :: "format \<Rightarrow> int" where
  "qmax fmt = emax fmt - int (prec fmt) + 1"

definition is_val :: "format \<Rightarrow> fp \<Rightarrow> bool" where
  "is_val fmt x =
     (case x of Fin s m e \<Rightarrow> m < 2 ^ prec fmt \<and> qmin fmt \<le> e \<and> e \<le> qmax fmt | _ \<Rightarrow> True)"

definition is_nan :: "fp \<Rightarrow> bool" where
  "is_nan x = (case x of NaN \<Rightarrow> True | _ \<Rightarrow> False)"

definition is_finite :: "fp \<Rightarrow> bool" where
  "is_finite x = (case x of Fin s m e \<Rightarrow> True | _ \<Rightarrow> False)"

definition is_zero :: "fp \<Rightarrow> bool" where
  "is_zero x = (case x of Fin s m e \<Rightarrow> m = 0 | _ \<Rightarrow> False)"

definition sign_bit :: "fp \<Rightarrow> bool" where
  "sign_bit x = (case x of Fin s m e \<Rightarrow> s | Inf s \<Rightarrow> s | NaN \<Rightarrow> False)"

definition pow2 :: "int \<Rightarrow> rat" where
  "pow2 e = (if 0 \<le> e then 2 ^ nat e else 1 / 2 ^ nat (- e))"

text \<open>The number a finite datum stands for (0 for the others).\<close>

definition valof :: "fp \<Rightarrow> rat" where
  "valof x =
     (case x of Fin s m e \<Rightarrow> (if s then - 1 else 1) * of_nat m * pow2 e | _ \<Rightarrow> 0)"

section \<open>Native comparison\<close>

text \<open>
  Two data stand in exactly one of four relations; any comparison with a NaN is
  unordered, and the two zeros are equal. Finite numbers are compared as integers after
  alignment to the smaller exponent.
\<close>

datatype cmp = Less | Equal | Greater | Unordered

definition aligned :: "bool \<Rightarrow> nat \<Rightarrow> int \<Rightarrow> int \<Rightarrow> int" where
  "aligned s m e e0 = (if s then - 1 else 1) * int m * 2 ^ nat (e - e0)"

fun fcompare :: "fp \<Rightarrow> fp \<Rightarrow> cmp" where
  "fcompare NaN y = Unordered"
| "fcompare (Inf s) NaN = Unordered"
| "fcompare (Fin s m e) NaN = Unordered"
| "fcompare (Inf s) (Inf t) = (if s = t then Equal else if s then Less else Greater)"
| "fcompare (Inf s) (Fin t n f) = (if s then Less else Greater)"
| "fcompare (Fin s m e) (Inf t) = (if t then Greater else Less)"
| "fcompare (Fin s m e) (Fin t n f) =
     (let e0 = min e f; x = aligned s m e e0; y = aligned t n f e0
      in if x < y then Less else if x = y then Equal else Greater)"

text \<open>The C operators \<^verbatim>\<open><\<close>, \<^verbatim>\<open><=\<close>, \<^verbatim>\<open>>\<close>, \<^verbatim>\<open>>=\<close>, \<^verbatim>\<open>==\<close> and \<^verbatim>\<open>!=\<close> on floating operands.\<close>

definition fp_lt :: "fp \<Rightarrow> fp \<Rightarrow> bool" where
  "fp_lt a b = (fcompare a b = Less)"

definition fp_le :: "fp \<Rightarrow> fp \<Rightarrow> bool" where
  "fp_le a b = (fcompare a b = Less \<or> fcompare a b = Equal)"

definition fp_gt :: "fp \<Rightarrow> fp \<Rightarrow> bool" where
  "fp_gt a b = (fcompare a b = Greater)"

definition fp_ge :: "fp \<Rightarrow> fp \<Rightarrow> bool" where
  "fp_ge a b = (fcompare a b = Greater \<or> fcompare a b = Equal)"

definition fp_eq :: "fp \<Rightarrow> fp \<Rightarrow> bool" where
  "fp_eq a b = (fcompare a b = Equal)"

definition fp_ne :: "fp \<Rightarrow> fp \<Rightarrow> bool" where
  "fp_ne a b = (fcompare a b \<noteq> Equal)"

section \<open>Native rounding\<close>

text \<open>
  Arithmetic and casts deliver the exact result rounded to the target format, to the
  nearest representable number with ties to the even significand, which is the rounding
  direction in force unless the program changes it (this file does not).

  \<open>scaled n d k\<close> is the magnitude \<open>n / d * 2\<^sup>k\<close> as a fraction of naturals, and
  \<open>rne\<close> rounds a fraction to the nearest natural, ties to even.
\<close>

definition scaled :: "nat \<Rightarrow> nat \<Rightarrow> int \<Rightarrow> nat \<times> nat" where
  "scaled n d k = (if 0 \<le> k then (n * 2 ^ nat k, d) else (n, d * 2 ^ nat (- k)))"

definition rne :: "nat \<times> nat \<Rightarrow> nat" where
  "rne x =
     (let q = fst x div snd x; r = fst x mod snd x
      in if 2 * r < snd x then q
         else if snd x < 2 * r then q + 1
         else if even q then q else q + 1)"

text \<open>
  \<open>round_fp fmt s n d e\<close> rounds the number of sign \<open>s\<close> and magnitude
  \<open>n / d * 2\<^sup>e\<close> (\<open>0 < d\<close>) to the format. With \<open>ex\<close> the exponent of the leading bit
  of the magnitude, the significand is taken at exponent \<open>ex - prec + 1\<close>, or at the
  smallest exponent \<open>qmin\<close> for a subnormal; a significand rounded up to \<open>2\<^sup>p\<close> moves
  to the next exponent, and an exponent beyond \<open>qmax\<close> overflows to an infinity.
\<close>

definition round_fp :: "format \<Rightarrow> bool \<Rightarrow> nat \<Rightarrow> nat \<Rightarrow> int \<Rightarrow> fp" where
  "round_fp fmt s n d e =
     (if n = 0 then Fin s 0 (qmin fmt)
      else
        let k = bitlen (int n) - bitlen (int d) + e;
            ex = (if snd (scaled n d (e - k)) \<le> fst (scaled n d (e - k)) then k else k - 1);
            q = max (ex - int (prec fmt) + 1) (qmin fmt);
            m = rne (scaled n d (e - q))
        in if m = 2 ^ prec fmt
           then (if qmax fmt < q + 1 then Inf s else Fin s (2 ^ (prec fmt - 1)) (q + 1))
           else (if qmax fmt < q then Inf s else Fin s m q))"

section \<open>Native arithmetic and casts\<close>

text \<open>
  Division and multiplication of the native type. An invalid operation (zero by
  zero, infinity by infinity, zero times infinity) or a NaN operand gives a NaN; a division of a nonzero finite
  number by a zero gives an infinity; the sign of every other result is the exclusive
  or of the operands' signs. No case traps: the result is always a datum.
\<close>

fun fp_div :: "format \<Rightarrow> fp \<Rightarrow> fp \<Rightarrow> fp" where
  "fp_div fmt NaN y = NaN"
| "fp_div fmt (Inf s) NaN = NaN"
| "fp_div fmt (Fin s m e) NaN = NaN"
| "fp_div fmt (Inf s) (Inf t) = NaN"
| "fp_div fmt (Inf s) (Fin t n f) = Inf (s \<noteq> t)"
| "fp_div fmt (Fin s m e) (Inf t) = Fin (s \<noteq> t) 0 (qmin fmt)"
| "fp_div fmt (Fin s m e) (Fin t n f) =
     (if n = 0 then (if m = 0 then NaN else Inf (s \<noteq> t))
      else round_fp fmt (s \<noteq> t) m n (e - f))"

fun fp_mul :: "format \<Rightarrow> fp \<Rightarrow> fp \<Rightarrow> fp" where
  "fp_mul fmt NaN y = NaN"
| "fp_mul fmt (Inf s) NaN = NaN"
| "fp_mul fmt (Fin s m e) NaN = NaN"
| "fp_mul fmt (Inf s) (Inf t) = Inf (s \<noteq> t)"
| "fp_mul fmt (Inf s) (Fin t n f) = (if n = 0 then NaN else Inf (s \<noteq> t))"
| "fp_mul fmt (Fin s m e) (Inf t) = (if m = 0 then NaN else Inf (s \<noteq> t))"
| "fp_mul fmt (Fin s m e) (Fin t n f) = round_fp fmt (s \<noteq> t) (m * n) 1 (e + f)"

text \<open>A cast between floating types rounds a finite number to the target format.\<close>

definition fp_cast :: "format \<Rightarrow> fp \<Rightarrow> fp" where
  "fp_cast fmt x =
     (case x of NaN \<Rightarrow> NaN | Inf s \<Rightarrow> Inf s | Fin s m e \<Rightarrow> round_fp fmt s m 1 e)"

text \<open>
  A cast of a floating value to an integer type discards the fraction of a finite value.
  The C language leaves the cast undefined when the operand is a NaN or an infinity or
  when the integral part is not a value of the integer type: the model returns \<open>None\<close>
  there. \<^verbatim>\<open>int\<close> is a 32-bit word read in two's complement (\<open>sint\<close>), so that \<open>- 1\<close>
  is the word of all ones; \<^verbatim>\<open>unsigned int\<close> is a 32-bit word read by \<open>uint\<close>.
\<close>

definition int_part :: "fp \<Rightarrow> int option" where
  "int_part x =
     (case x of
        Fin s m e \<Rightarrow>
          Some ((if s then - 1 else 1) *
                (if 0 \<le> e then int m * 2 ^ nat e else int m div 2 ^ nat (- e)))
      | _ \<Rightarrow> None)"

type_synonym c_int = "32 word"

type_synonym c_uint = "32 word"

definition cast_int :: "fp \<Rightarrow> c_int option" where
  "cast_int x =
     (case int_part x of
        Some t \<Rightarrow> if - (2 ^ 31) \<le> t \<and> t < 2 ^ 31 then Some (word_of_int t) else None
      | None \<Rightarrow> None)"

definition cast_uint :: "fp \<Rightarrow> c_uint option" where
  "cast_uint x =
     (case int_part x of
        Some t \<Rightarrow> if 0 \<le> t \<and> t < 2 ^ 32 then Some (word_of_int t) else None
      | None \<Rightarrow> None)"

text \<open>A cast of a \<^verbatim>\<open>uint64_t\<close> to a floating type rounds its value to the format.\<close>

definition cast_of_uint64 :: "format \<Rightarrow> 64 word \<Rightarrow> fp" where
  "cast_of_uint64 fmt a = round_fp fmt False (unat a) 1 0"

text \<open>\<^verbatim>\<open>truncl\<close>: the integral part of a finite number as a floating value.\<close>

definition fp_trunc :: "fp \<Rightarrow> fp" where
  "fp_trunc x =
     (case x of
        Fin s m e \<Rightarrow> if e < 0 then Fin s (m div 2 ^ nat (- e)) 0 else Fin s m e
      | _ \<Rightarrow> x)"

section \<open>The routines of the file\<close>

text \<open>
  The routines keep the names of the source without the two leading underscores, which
  an Isabelle name cannot have, and in the order of the file. A C comparison yields the
  \<^verbatim>\<open>int\<close> 1 or 0, and \<^verbatim>\<open>!\<close> maps 0 to 1 and everything else to 0.
\<close>

definition c_bool :: "bool \<Rightarrow> c_int" where
  "c_bool b = (if b then 1 else 0)"

definition c_lnot :: "c_int \<Rightarrow> c_int" where
  "c_lnot x = (if x = 0 then 1 else 0)"

text \<open>\<^verbatim>\<open>fp128 __divtf3(fp128 a, fp128 b) { return a / b; }\<close>\<close>

definition divtf3 :: "format \<Rightarrow> fp \<Rightarrow> fp \<Rightarrow> fp" where
  "divtf3 ld a b = fp_div ld a b"

text \<open>\<^verbatim>\<open>int __eqtf2(fp128 a, fp128 b) { return !(a == b); }\<close>\<close>

definition eqtf2 :: "fp \<Rightarrow> fp \<Rightarrow> c_int" where
  "eqtf2 a b = c_lnot (c_bool (fp_eq a b))"

text \<open>\<^verbatim>\<open>int __netf2(fp128 a, fp128 b) { return a != b; }\<close>\<close>

definition netf2 :: "fp \<Rightarrow> fp \<Rightarrow> c_int" where
  "netf2 a b = c_bool (fp_ne a b)"

text \<open>\<^verbatim>\<open>if (a < b) return -1; if (a == b) return 0; return 1;\<close>\<close>

definition lttf2 :: "fp \<Rightarrow> fp \<Rightarrow> c_int" where
  "lttf2 a b = (if fp_lt a b then - 1 else if fp_eq a b then 0 else 1)"

text \<open>\<^verbatim>\<open>if (a > b) return 1; if (a == b) return 0; return -1;\<close>\<close>

definition gttf2 :: "fp \<Rightarrow> fp \<Rightarrow> c_int" where
  "gttf2 a b = (if fp_gt a b then 1 else if fp_eq a b then 0 else - 1)"

text \<open>\<^verbatim>\<open>if (a >= b) return 0; return -1;\<close>\<close>

definition getf2 :: "fp \<Rightarrow> fp \<Rightarrow> c_int" where
  "getf2 a b = (if fp_ge a b then 0 else - 1)"

text \<open>\<^verbatim>\<open>if (a <= b) return 0; return 1;\<close>\<close>

definition letf2 :: "fp \<Rightarrow> fp \<Rightarrow> c_int" where
  "letf2 a b = (if fp_le a b then 0 else 1)"

text \<open>\<^verbatim>\<open>fp128 __multf3(fp128 a, fp128 b) { return a * b; }\<close>\<close>

definition multf3 :: "format \<Rightarrow> fp \<Rightarrow> fp \<Rightarrow> fp" where
  "multf3 ld a b = fp_mul ld a b"

text \<open>
  \<^verbatim>\<open>fp128 __extendsftf2(float a) { return (fp128)a; }\<close> and
  \<^verbatim>\<open>float __trunctfsf2(fp128 a) { return (float)a; }\<close>, where \<^verbatim>\<open>float\<close> is the format
  \<open>binary32\<close>.
\<close>

definition extendsftf2 :: "format \<Rightarrow> fp \<Rightarrow> fp" where
  "extendsftf2 ld a = fp_cast ld a"

definition trunctfsf2 :: "fp \<Rightarrow> fp" where
  "trunctfsf2 a = fp_cast binary32 a"

text \<open>
  \<^verbatim>\<open>int __fixtfsi(fp128 a) { return (int)a; }\<close> and
  \<^verbatim>\<open>unsigned int __fixunstfsi(fp128 a) { return (unsigned int)a; }\<close>
\<close>

definition fixtfsi :: "fp \<Rightarrow> c_int option" where
  "fixtfsi a = cast_int a"

definition fixunstfsi :: "fp \<Rightarrow> c_uint option" where
  "fixunstfsi a = cast_uint a"

text \<open>\<^verbatim>\<open>fp128 __floatuntitf(uint64_t a) { return (fp128)a; }\<close>\<close>

definition floatuntitf :: "format \<Rightarrow> 64 word \<Rightarrow> fp" where
  "floatuntitf ld a = cast_of_uint64 ld a"

text \<open>\<^verbatim>\<open>long double truncq(long double x) { return truncl(x); }\<close>\<close>

definition truncq :: "fp \<Rightarrow> fp" where
  "truncq x = fp_trunc x"

section \<open>Notions used in the statements\<close>

fun converse_cmp :: "cmp \<Rightarrow> cmp" where
  "converse_cmp Less = Greater"
| "converse_cmp Greater = Less"
| "converse_cmp Equal = Equal"
| "converse_cmp Unordered = Unordered"

text \<open>Truncation toward zero, on the numbers.\<close>

definition truncate_toward_zero :: "rat \<Rightarrow> int" where
  "truncate_toward_zero x = (if 0 \<le> x then \<lfloor>x\<rfloor> else \<lceil>x\<rceil>)"

text \<open>Every finite number of format \<open>fmt\<close> is one of format \<open>ld\<close>.\<close>

definition contains :: "format \<Rightarrow> format \<Rightarrow> bool" where
  "contains ld fmt = (prec fmt \<le> prec ld \<and> qmin ld \<le> qmin fmt \<and> qmax fmt \<le> qmax ld)"

text \<open>
  Rounding to nearest, ties to even, as a relation between a number \<open>x\<close> and a datum
  \<open>r\<close> of the format, with \<open>s\<close> the sign a zero result takes. The result is no NaN, has
  sign \<open>s\<close>, is a datum of the format and is normalised (its significand has the full
  precision, or its exponent is the smallest). It is finite exactly when the magnitude
  of \<open>x\<close> is below the overflow threshold, halfway between the largest finite number and
  the next power of two; a finite result is at least as close to \<open>x\<close> as every finite
  datum of the format, and where another one is as close its significand is even.
\<close>

definition significand :: "fp \<Rightarrow> nat" where
  "significand x = (case x of Fin s m e \<Rightarrow> m | _ \<Rightarrow> 0)"

definition normalised :: "format \<Rightarrow> fp \<Rightarrow> bool" where
  "normalised fmt x =
     (case x of Fin s m e \<Rightarrow> 2 ^ (prec fmt - 1) \<le> m \<or> e = qmin fmt | _ \<Rightarrow> True)"

definition overflow_threshold :: "format \<Rightarrow> rat" where
  "overflow_threshold fmt = (2 ^ prec fmt - 1 / 2) * pow2 (qmax fmt)"

text \<open>The formats of the standard: at least two bits of precision, \<open>emax\<close> at least 1.\<close>

definition valid_format :: "format \<Rightarrow> bool" where
  "valid_format fmt = (2 \<le> prec fmt \<and> 1 \<le> emax fmt)"

definition correctly_rounded :: "format \<Rightarrow> bool \<Rightarrow> rat \<Rightarrow> fp \<Rightarrow> bool" where
  "correctly_rounded fmt s x r =
     (\<not> is_nan r \<and> sign_bit r = s \<and> is_val fmt r \<and> normalised fmt r \<and>
      (is_finite r \<longleftrightarrow> \<bar>x\<bar> < overflow_threshold fmt) \<and>
      (is_finite r \<longrightarrow>
         (\<forall>c. is_finite c \<and> is_val fmt c \<longrightarrow> \<bar>valof r - x\<bar> \<le> \<bar>valof c - x\<bar>) \<and>
         (\<forall>c. is_finite c \<and> is_val fmt c \<and> valof c \<noteq> valof r \<and>
              \<bar>valof c - x\<bar> = \<bar>valof r - x\<bar> \<longrightarrow> even (significand r))))"

section \<open>Properties of the native comparison\<close>

lemma fcompare_swap: "fcompare b a = converse_cmp (fcompare a b)"
  by (cases a; cases b) (auto simp: Let_def min.commute)

lemma fcompare_self: "fcompare a a = (if is_nan a then Unordered else Equal)"
  by (cases a) (auto simp: is_nan_def Let_def)

lemma fcompare_unordered: "fcompare a b = Unordered \<longleftrightarrow> is_nan a \<or> is_nan b"
  by (cases a; cases b) (auto simp: is_nan_def Let_def)

text \<open>On finite operands the comparison is the order of the numbers they stand for.\<close>

lemma pow2_powi: "pow2 e = 2 powi e"
  by (simp add: pow2_def power_int_def field_simps)

lemma pow2_add: "pow2 (a + b) = pow2 a * pow2 b"
  by (simp add: pow2_powi power_int_add)

lemma pow2_nat: "0 \<le> t \<Longrightarrow> of_nat (2 ^ nat t) * pow2 q = pow2 (t + q)"
  by (simp add: pow2_add) (simp add: pow2_def)

lemma pow2_pos: "0 < pow2 e"
  by (simp add: pow2_def)

lemma valof_aligned: "e0 \<le> e \<Longrightarrow> valof (Fin s m e) = of_int (aligned s m e e0) * pow2 e0"
  using pow2_nat [of "e - e0" e0] by (simp add: valof_def aligned_def mult.assoc)

lemma fcompare_finite_valof:
  "fcompare (Fin s m e) (Fin t n f) =
     (if valof (Fin s m e) < valof (Fin t n f) then Less
      else if valof (Fin s m e) = valof (Fin t n f) then Equal else Greater)"
proof -
  define e0 where "e0 = min e f"
  have "valof (Fin s m e) = of_int (aligned s m e e0) * pow2 e0"
    "valof (Fin t n f) = of_int (aligned t n f e0) * pow2 e0"
    by (rule valof_aligned, simp add: e0_def)+
  then have "valof (Fin s m e) < valof (Fin t n f) \<longleftrightarrow> aligned s m e e0 < aligned t n f e0"
    "valof (Fin s m e) = valof (Fin t n f) \<longleftrightarrow> aligned s m e e0 = aligned t n f e0"
    using pow2_pos [of e0] by (simp_all add: mult_less_cancel_right)
  then show ?thesis
    by (simp add: Let_def e0_def)
qed

section \<open>Equality and inequality tests\<close>

text \<open>
  C1, as stated: \<^verbatim>\<open>__eqtf2(a, a)\<close> returns 0 for every operand \<open>a\<close>. It fails at a NaN,
  which does not compare equal to itself, so that \<^verbatim>\<open>!(a == a)\<close> is 1.
\<close>

theorem eqtf2_nan_counterexample: "eqtf2 NaN NaN \<noteq> 0"
  by (simp add: eqtf2_def fp_eq_def c_bool_def c_lnot_def)

text \<open>
  C1, amended: for every operand \<open>a\<close> that is not a NaN, \<^verbatim>\<open>__eqtf2(a, a)\<close> returns 0;
  for a NaN it returns 1; and for every pair of operands with \<^verbatim>\<open>a != b\<close>,
  \<^verbatim>\<open>__eqtf2(a, b)\<close> returns a nonzero value.
\<close>

theorem eqtf2_self_and_distinct:
  "(\<not> is_nan a \<longrightarrow> eqtf2 a a = 0) \<and> (is_nan a \<longrightarrow> eqtf2 a a = 1) \<and>
   (fp_ne a b \<longrightarrow> eqtf2 a b \<noteq> 0)"
  by (simp add: eqtf2_def fp_eq_def fp_ne_def c_bool_def c_lnot_def fcompare_self)

theorem eqtf2_self_and_distinct_witness:
  "\<not> is_nan (Fin False 3 0) \<and> eqtf2 (Fin False 3 0) (Fin False 3 0) = 0 \<and>
   is_nan NaN \<and> eqtf2 NaN NaN = 1 \<and>
   fp_ne (Fin False 3 0) (Fin True 1 1) \<and> eqtf2 (Fin False 3 0) (Fin True 1 1) \<noteq> 0"
  using eqtf2_self_and_distinct [of "Fin False 3 0" "Fin True 1 1"]
    eqtf2_self_and_distinct [of NaN NaN]
  by (simp add: is_nan_def fp_ne_def aligned_def)

text \<open>
  C9: for every pair of operands the equality test and the inequality test return the
  same value, which is 0 or 1: 0 exactly when \<^verbatim>\<open>a == b\<close> holds and 1 otherwise, in
  particular when an operand is a NaN. On finite operands \<^verbatim>\<open>a == b\<close> is the equality of
  the numbers, so the two zeros are equal.
\<close>

theorem eqtf2_netf2_agree:
  "eqtf2 a b = netf2 a b \<and> (eqtf2 a b = 0 \<or> eqtf2 a b = 1) \<and>
   (eqtf2 a b = 0 \<longleftrightarrow> fp_eq a b) \<and> (eqtf2 a b = 1 \<longleftrightarrow> \<not> fp_eq a b) \<and>
   (is_nan a \<or> is_nan b \<longrightarrow> eqtf2 a b = 1) \<and>
   (is_finite a \<and> is_finite b \<longrightarrow> (eqtf2 a b = 0 \<longleftrightarrow> valof a = valof b))"
proof -
  have "eqtf2 a b = 0 \<longleftrightarrow> valof a = valof b" if "is_finite a" "is_finite b"
  proof -
    from that obtain s m e t n f where "a = Fin s m e" "b = Fin t n f"
      by (cases a; cases b) (simp_all add: is_finite_def)
    then show ?thesis
      by (simp add: eqtf2_def fp_eq_def c_bool_def c_lnot_def fcompare_finite_valof
          del: fcompare.simps)
  qed
  moreover have "eqtf2 a b = netf2 a b \<and> (eqtf2 a b = 0 \<or> eqtf2 a b = 1) \<and>
   (eqtf2 a b = 0 \<longleftrightarrow> fp_eq a b) \<and> (eqtf2 a b = 1 \<longleftrightarrow> \<not> fp_eq a b) \<and>
   (is_nan a \<or> is_nan b \<longrightarrow> eqtf2 a b = 1)"
    using fcompare_unordered [of a b]
    by (cases "fcompare a b")
      (simp_all add: eqtf2_def netf2_def fp_eq_def fp_ne_def c_bool_def c_lnot_def)
  ultimately show ?thesis by blast
qed

theorem eqtf2_netf2_agree_witness:
  "(is_nan NaN \<or> is_nan (Fin False 1 0)) \<and> eqtf2 NaN (Fin False 1 0) = 1 \<and>
   netf2 NaN (Fin False 1 0) = 1 \<and>
   is_finite (Fin False 0 0) \<and> is_finite (Fin True 0 5) \<and>
   valof (Fin False 0 0) = valof (Fin True 0 5) \<and>
   eqtf2 (Fin False 0 0) (Fin True 0 5) = 0 \<and> netf2 (Fin False 0 0) (Fin True 0 5) = 0"
  using eqtf2_netf2_agree [of NaN "Fin False 1 0"]
    eqtf2_netf2_agree [of "Fin False 0 0" "Fin True 0 5"]
  by (auto simp: is_nan_def is_finite_def valof_def)

section \<open>Ordered compares\<close>

text \<open>
  C2: \<^verbatim>\<open>__lttf2(a, b)\<close> returns -1 when \<^verbatim>\<open>a < b\<close>, 0 when \<^verbatim>\<open>a == b\<close> and 1 in every other
  case; it returns 1 exactly when \<^verbatim>\<open>a > b\<close> or the operands are unordered (one of them
  is a NaN). On finite operands the three results follow the order of the numbers.
\<close>

theorem lttf2_three_way:
  "(fp_lt a b \<longrightarrow> lttf2 a b = - 1) \<and> (fp_eq a b \<longrightarrow> lttf2 a b = 0) \<and>
   (\<not> fp_lt a b \<and> \<not> fp_eq a b \<longrightarrow> lttf2 a b = 1) \<and>
   (lttf2 a b = 1 \<longleftrightarrow> fp_gt a b \<or> is_nan a \<or> is_nan b) \<and>
   (is_finite a \<and> is_finite b \<longrightarrow>
      sint (lttf2 a b) = (if valof a < valof b then - 1 else if valof a = valof b then 0 else 1))"
proof -
  have "sint (lttf2 a b) = (if valof a < valof b then - 1 else if valof a = valof b then 0 else 1)"
    if "is_finite a" "is_finite b"
  proof -
    from that obtain s m e t n f where "a = Fin s m e" "b = Fin t n f"
      by (cases a; cases b) (simp_all add: is_finite_def)
    then show ?thesis
      by (simp add: lttf2_def fp_lt_def fp_eq_def fcompare_finite_valof del: fcompare.simps)
  qed
  moreover have "(fp_lt a b \<longrightarrow> lttf2 a b = - 1) \<and> (fp_eq a b \<longrightarrow> lttf2 a b = 0) \<and>
   (\<not> fp_lt a b \<and> \<not> fp_eq a b \<longrightarrow> lttf2 a b = 1) \<and>
   (lttf2 a b = 1 \<longleftrightarrow> fp_gt a b \<or> is_nan a \<or> is_nan b)"
    using fcompare_unordered [of a b]
    by (cases "fcompare a b") (simp_all add: lttf2_def fp_lt_def fp_eq_def fp_gt_def)
  ultimately show ?thesis by blast
qed

theorem lttf2_three_way_witness:
  "fp_lt (Fin False 1 0) (Fin False 1 1) \<and> lttf2 (Fin False 1 0) (Fin False 1 1) = - 1 \<and>
   fp_eq (Fin False 0 0) (Fin True 0 5) \<and> lttf2 (Fin False 0 0) (Fin True 0 5) = 0 \<and>
   \<not> fp_lt (Inf False) (Fin False 1 1) \<and> \<not> fp_eq (Inf False) (Fin False 1 1) \<and>
   lttf2 (Inf False) (Fin False 1 1) = 1 \<and>
   \<not> fp_lt NaN (Fin False 1 1) \<and> \<not> fp_eq NaN (Fin False 1 1) \<and> lttf2 NaN (Fin False 1 1) = 1 \<and>
   is_finite (Fin False 1 0) \<and> is_finite (Fin False 1 1) \<and>
   valof (Fin False 1 0) < valof (Fin False 1 1) \<and>
   sint (lttf2 (Fin False 1 0) (Fin False 1 1)) = - 1"
  using lttf2_three_way [of "Fin False 1 0" "Fin False 1 1"]
    lttf2_three_way [of "Fin False 0 0" "Fin True 0 5"]
    lttf2_three_way [of "Inf False" "Fin False 1 1"]
    lttf2_three_way [of NaN "Fin False 1 1"]
  by (simp add: fp_lt_def fp_eq_def aligned_def is_finite_def valof_def pow2_def)

text \<open>
  C3: \<^verbatim>\<open>__getf2(a, b)\<close> returns 0 when \<^verbatim>\<open>a >= b\<close> and -1 otherwise, that is when
  \<^verbatim>\<open>a < b\<close> or the operands are unordered; \<^verbatim>\<open>__letf2(a, b)\<close> returns 0 when \<^verbatim>\<open>a <= b\<close>
  and 1 otherwise, that is when \<^verbatim>\<open>a > b\<close> or the operands are unordered. On finite
  operands the results follow the order of the numbers.
\<close>

theorem getf2_letf2_sentinels:
  "(fp_ge a b \<longrightarrow> getf2 a b = 0) \<and> (\<not> fp_ge a b \<longrightarrow> getf2 a b = - 1) \<and>
   (getf2 a b = - 1 \<longleftrightarrow> fp_lt a b \<or> is_nan a \<or> is_nan b) \<and>
   (fp_le a b \<longrightarrow> letf2 a b = 0) \<and> (\<not> fp_le a b \<longrightarrow> letf2 a b = 1) \<and>
   (letf2 a b = 1 \<longleftrightarrow> fp_gt a b \<or> is_nan a \<or> is_nan b) \<and>
   (is_finite a \<and> is_finite b \<longrightarrow>
      sint (getf2 a b) = (if valof b \<le> valof a then 0 else - 1) \<and>
      sint (letf2 a b) = (if valof a \<le> valof b then 0 else 1))"
proof -
  have "sint (getf2 a b) = (if valof b \<le> valof a then 0 else - 1) \<and>
      sint (letf2 a b) = (if valof a \<le> valof b then 0 else 1)"
    if "is_finite a" "is_finite b"
  proof -
    from that obtain s m e t n f where "a = Fin s m e" "b = Fin t n f"
      by (cases a; cases b) (simp_all add: is_finite_def)
    then show ?thesis
      by (auto simp add: getf2_def letf2_def fp_ge_def fp_le_def fcompare_finite_valof
          simp del: fcompare.simps)
  qed
  moreover have "(fp_ge a b \<longrightarrow> getf2 a b = 0) \<and> (\<not> fp_ge a b \<longrightarrow> getf2 a b = - 1) \<and>
   (getf2 a b = - 1 \<longleftrightarrow> fp_lt a b \<or> is_nan a \<or> is_nan b) \<and>
   (fp_le a b \<longrightarrow> letf2 a b = 0) \<and> (\<not> fp_le a b \<longrightarrow> letf2 a b = 1) \<and>
   (letf2 a b = 1 \<longleftrightarrow> fp_gt a b \<or> is_nan a \<or> is_nan b)"
    using fcompare_unordered [of a b]
    by (cases "fcompare a b")
      (simp_all add: getf2_def letf2_def fp_lt_def fp_gt_def fp_ge_def fp_le_def)
  ultimately show ?thesis by blast
qed

theorem getf2_letf2_sentinels_witness:
  "fp_ge (Fin False 3 0) (Fin False 1 1) \<and> getf2 (Fin False 3 0) (Fin False 1 1) = 0 \<and>
   \<not> fp_ge (Fin False 1 0) NaN \<and> getf2 (Fin False 1 0) NaN = - 1 \<and>
   \<not> fp_ge (Fin True 1 0) (Fin False 1 0) \<and> getf2 (Fin True 1 0) (Fin False 1 0) = - 1 \<and>
   fp_le (Fin True 1 0) (Fin False 1 0) \<and> letf2 (Fin True 1 0) (Fin False 1 0) = 0 \<and>
   \<not> fp_le (Fin False 3 0) (Fin False 1 1) \<and> letf2 (Fin False 3 0) (Fin False 1 1) = 1 \<and>
   is_finite (Fin False 3 0) \<and> is_finite (Fin False 1 1) \<and>
   valof (Fin False 1 1) \<le> valof (Fin False 3 0) \<and>
   sint (getf2 (Fin False 3 0) (Fin False 1 1)) = 0 \<and>
   sint (letf2 (Fin False 3 0) (Fin False 1 1)) = 1"
  using getf2_letf2_sentinels [of "Fin False 3 0" "Fin False 1 1"]
    getf2_letf2_sentinels [of "Fin False 1 0" NaN]
    getf2_letf2_sentinels [of "Fin True 1 0" "Fin False 1 0"]
  by (simp add: fp_ge_def fp_le_def aligned_def is_finite_def valof_def pow2_def)

text \<open>
  C10: the two three-way compares are dual under exchange of their arguments: for every
  pair of operands, NaN included, \<^verbatim>\<open>__lttf2(a, b)\<close> is the negation of
  \<^verbatim>\<open>__gttf2(b, a)\<close>.
\<close>

theorem lttf2_gttf2_dual: "lttf2 a b = - gttf2 b a"
  using fcompare_swap [where a = a and b = b]
  by (cases "fcompare a b") (simp_all add: lttf2_def gttf2_def fp_lt_def fp_gt_def fp_eq_def)

section \<open>A representable number rounds to itself\<close>

lemma rne_exact: "0 < d \<Longrightarrow> rne (x * d, d) = x"
  by (simp add: rne_def Let_def)

lemma scaled_exact:
  assumes "0 \<le> t"
  shows "rne (scaled (m * 2 ^ j) 1 (t - int j)) = m * 2 ^ nat t"
proof (cases "int j \<le> t")
  case True
  then have "nat (t - int j) + j = nat t" by simp
  then have "(2::nat) ^ j * 2 ^ nat (t - int j) = 2 ^ nat t"
    by (metis add.commute power_add)
  with True show ?thesis
    using rne_exact [of 1 "m * 2 ^ nat t"] by (simp add: scaled_def mult.assoc)
next
  case False
  with assms have "nat t + nat (int j - t) = j" by simp
  then have "(2::nat) ^ j = 2 ^ nat t * 2 ^ nat (int j - t)"
    by (metis power_add)
  with False show ?thesis
    using rne_exact [of "2 ^ nat (int j - t)" "m * 2 ^ nat t"] by (simp add: scaled_def mult.assoc)
qed


lemma bitlen_pos: "0 < m \<Longrightarrow> 1 \<le> bitlen (int m)"
  using bitlen_eq_zero_iff [of "int m"] bitlen_nonneg [of "int m"] by simp

lemma bitlen_one: "bitlen 1 = 1"
  by (simp add: bitlen_alt_def)

lemma bitlen_shift: "0 < m \<Longrightarrow> bitlen (int (m * 2 ^ j)) = bitlen (int m) + int j"
  using bitlen_pow2 [of "int m" j] by simp

lemma bitlen_low: "0 < m \<Longrightarrow> 2 ^ nat (bitlen (int m) - 1) \<le> m"
  using bitlen_bounds [of "int m"]
  by (metis of_nat_0_less_iff of_nat_le_iff of_nat_numeral of_nat_power)

lemma bitlen_le_prec: "m < 2 ^ p \<Longrightarrow> bitlen (int m) \<le> int p"
  using less_power_nat_iff_bitlen [of m p] by simp

lemma binade_exact:
  assumes "0 < m"
  shows "snd (scaled (m * 2 ^ j) 1 (1 - bitlen (int m) - int j))
           \<le> fst (scaled (m * 2 ^ j) 1 (1 - bitlen (int m) - int j))"
proof (cases "0 \<le> 1 - bitlen (int m) - int j")
  case True
  with assms show ?thesis by (simp add: scaled_def)
next
  case False
  have n: "nat (- (1 - bitlen (int m) - int j)) = nat (bitlen (int m) - 1) + j"
    using bitlen_pos [OF assms] by simp
  from False have "scaled (m * 2 ^ j) 1 (1 - bitlen (int m) - int j) =
      (m * 2 ^ j, 2 ^ (nat (bitlen (int m) - 1) + j))"
    unfolding n [symmetric] by (simp add: scaled_def)
  with bitlen_low [OF assms] show ?thesis
    by (simp add: power_add)
qed

lemma round_fp_exact:
  assumes m: "0 < m" "m < 2 ^ prec fmt" and e: "qmin fmt \<le> e" "e \<le> qmax fmt"
  shows "round_fp fmt s (m * 2 ^ j) 1 (e - int j) =
           Fin s (m * 2 ^ nat (e - max (bitlen (int m) + e - int (prec fmt)) (qmin fmt)))
             (max (bitlen (int m) + e - int (prec fmt)) (qmin fmt))"
proof -
  define q where "q = max (bitlen (int m) + e - int (prec fmt)) (qmin fmt)"
  define k where "k = bitlen (int (m * 2 ^ j)) - bitlen (int 1) + (e - int j)"
  have k: "k = bitlen (int m) - 1 + e"
    using bitlen_shift [OF m(1), of j] by (simp add: k_def bitlen_one)
  have ek: "e - int j - k = 1 - bitlen (int m) - int j"
    by (simp add: k)
  have qe: "q \<le> e"
    using bitlen_le_prec [OF m(2)] e(1) by (simp add: q_def)
  have r: "rne (scaled (m * 2 ^ j) 1 (e - int j - q)) = m * 2 ^ nat (e - q)"
    using scaled_exact [of "e - q" m j] qe by (simp add: algebra_simps)
  have t: "nat (e - q) \<le> prec fmt - nat (bitlen (int m))"
    using bitlen_le_prec [OF m(2)] bitlen_pos [OF m(1)] by (simp add: q_def)
  have "(2::nat) ^ nat (e - q) \<le> 2 ^ (prec fmt - nat (bitlen (int m)))"
    by (rule power_increasing) (use t in simp_all)
  then have a: "m * 2 ^ nat (e - q) \<le> m * 2 ^ (prec fmt - nat (bitlen (int m)))"
    by (rule mult_le_mono2)
  have "m < 2 ^ nat (bitlen (int m))"
    using less_power_nat_iff_bitlen [of m "nat (bitlen (int m))"] bitlen_pos [OF m(1)] by simp
  then have b: "m * 2 ^ (prec fmt - nat (bitlen (int m)))
      < 2 ^ nat (bitlen (int m)) * 2 ^ (prec fmt - nat (bitlen (int m)))"
    by simp
  have "nat (bitlen (int m)) + (prec fmt - nat (bitlen (int m))) = prec fmt"
    using bitlen_le_prec [OF m(2)] by simp
  then have c: "(2::nat) ^ nat (bitlen (int m)) * 2 ^ (prec fmt - nat (bitlen (int m))) = 2 ^ prec fmt"
    by (metis power_add)
  from a b c have lt: "m * 2 ^ nat (e - q) < 2 ^ prec fmt"
    by linarith
  have ex: "(if snd (scaled (m * 2 ^ j) 1 (e - int j - k)) \<le> fst (scaled (m * 2 ^ j) 1 (e - int j - k))
      then k else k - 1) = k"
    using binade_exact [OF m(1), of j] by (simp only: ek if_True)
  have q': "max (k - int (prec fmt) + 1) (qmin fmt) = q"
    by (simp add: k q_def)
  have N: "(m * 2 ^ j = 0) = False"
    using m(1) by simp
  have "round_fp fmt s (m * 2 ^ j) 1 (e - int j) =
     (if rne (scaled (m * 2 ^ j) 1 (e - int j - q)) = 2 ^ prec fmt
      then (if qmax fmt < q + 1 then Inf s else Fin s (2 ^ (prec fmt - 1)) (q + 1))
      else (if qmax fmt < q then Inf s
            else Fin s (rne (scaled (m * 2 ^ j) 1 (e - int j - q))) q))"
    unfolding round_fp_def Let_def k_def [symmetric] ex q' N by (simp only: if_False)
  also have "\<dots> = Fin s (m * 2 ^ nat (e - q)) q"
    unfolding r using lt qe e(2) by simp
  finally have "round_fp fmt s (m * 2 ^ j) 1 (e - int j) = Fin s (m * 2 ^ nat (e - q)) q" .
  then show ?thesis by (simp add: q_def)
qed


lemma valof_round_fp_exact:
  assumes "m < 2 ^ prec fmt" "qmin fmt \<le> e" "e \<le> qmax fmt"
  shows "valof (round_fp fmt s (m * 2 ^ j) 1 (e - int j)) = valof (Fin s m e)"
proof (cases "m = 0")
  case True
  then show ?thesis by (simp add: round_fp_def valof_def)
next
  case False
  define q where "q = max (bitlen (int m) + e - int (prec fmt)) (qmin fmt)"
  have qe: "0 \<le> e - q"
    using bitlen_le_prec [OF assms(1)] assms(2) by (simp add: q_def)
  from False have "0 < m" by simp
  from round_fp_exact [OF this assms, of s j]
  have "round_fp fmt s (m * 2 ^ j) 1 (e - int j) = Fin s (m * 2 ^ nat (e - q)) q"
    by (simp add: q_def)
  moreover have "of_nat (m * 2 ^ nat (e - q)) * pow2 q = of_nat m * pow2 e"
    using pow2_nat [OF qe, of q] by (simp add: mult.assoc)
  ultimately show ?thesis
    by (simp add: valof_def mult.assoc)
qed


section \<open>Casts between the floating types\<close>

lemma fcompare_rescaled:
  "q \<le> e \<Longrightarrow> fcompare (Fin s (m * 2 ^ nat (e - q)) q) (Fin s m e) = Equal"
  by (simp add: Let_def aligned_def min_def)

lemma cast_roundtrip_finite:
  assumes v: "m < 2 ^ prec fmt" "qmin fmt \<le> e" "e \<le> qmax fmt" and c: "contains ld fmt"
  shows "fp_eq (fp_cast fmt (fp_cast ld (Fin s m e))) (Fin s m e) \<and>
         sign_bit (fp_cast fmt (fp_cast ld (Fin s m e))) = s"
proof (cases "m = 0")
  case True
  then show ?thesis
    by (simp add: fp_cast_def round_fp_def fp_eq_def sign_bit_def Let_def aligned_def)
next
  case False
  then have m: "0 < m" by simp
  define q where "q = max (bitlen (int m) + e - int (prec ld)) (qmin ld)"
  define r where "r = max (bitlen (int m) + e - int (prec fmt)) (qmin fmt)"
  have pl: "m < 2 ^ prec ld"
  proof -
    have "(2::nat) ^ prec fmt \<le> 2 ^ prec ld"
      by (rule power_increasing) (use c in \<open>simp_all add: contains_def\<close>)
    with v(1) show ?thesis by (rule less_le_trans)
  qed
  have el: "qmin ld \<le> e" "e \<le> qmax ld"
    using v c by (simp_all add: contains_def)
  have qe: "q \<le> e"
    using bitlen_le_prec [OF pl] el(1) by (simp add: q_def)
  have re: "r \<le> e"
    using bitlen_le_prec [OF v(1)] v(2) by (simp add: r_def)
  have "fp_cast ld (Fin s m e) = Fin s (m * 2 ^ nat (e - q)) q"
    using round_fp_exact [OF m pl el, of s 0] by (simp add: fp_cast_def q_def)
  moreover have "q = e - int (nat (e - q))"
    using qe by simp
  then have "round_fp fmt s (m * 2 ^ nat (e - q)) 1 q = Fin s (m * 2 ^ nat (e - r)) r"
    using round_fp_exact [OF m v, of s "nat (e - q)"] by (simp add: r_def)
  ultimately have "fp_cast fmt (fp_cast ld (Fin s m e)) = Fin s (m * 2 ^ nat (e - r)) r"
    by (simp add: fp_cast_def)
  with fcompare_rescaled [OF re, of s m] show ?thesis
    by (simp add: fp_eq_def sign_bit_def)
qed

lemma binary32_simps: "prec binary32 = 24" "qmin binary32 = - 149" "qmax binary32 = 104"
  by (simp_all add: binary32_def qmin_def qmax_def)

lemma binary64_simps: "prec binary64 = 53" "qmin binary64 = - 1074" "qmax binary64 = 971"
  by (simp_all add: binary64_def qmin_def qmax_def)

lemma x87_extended_simps:
  "prec x87_extended = 64" "qmin x87_extended = - 16445" "qmax x87_extended = 16320"
  by (simp_all add: x87_extended_def qmin_def qmax_def)

lemma bitlen_numeral_simps:
  "bitlen (numeral (Num.Bit0 n)) = bitlen (numeral n) + 1"
  "bitlen (numeral (Num.Bit1 n)) = bitlen (numeral n) + 1"
  by (subst compute_bitlen, simp)+

text \<open>
  C5, as stated: \<^verbatim>\<open>__trunctfsf2(__extendsftf2(f)) == f\<close> for every \<^verbatim>\<open>float\<close> \<open>f\<close>. It
  fails at a NaN: the round trip returns a NaN, and \<^verbatim>\<open>==\<close> is false on a NaN.
\<close>

theorem trunctfsf2_nan_counterexample:
  "is_val binary32 NaN \<and> \<not> fp_eq (trunctfsf2 (extendsftf2 binary64 NaN)) NaN"
  by (simp add: is_val_def extendsftf2_def trunctfsf2_def fp_cast_def fp_eq_def)

text \<open>
  C5, amended: for every \<^verbatim>\<open>float\<close> \<open>f\<close> that is not a NaN (finite, subnormal and signed
  zero included, or infinite), on every \<^verbatim>\<open>long double\<close> format that contains the
  \<^verbatim>\<open>float\<close> format, \<^verbatim>\<open>__trunctfsf2(__extendsftf2(f)) == f\<close> and the sign is kept; a NaN
  comes back as a NaN. The opposite round trip loses precision: on a 64-bit
  \<^verbatim>\<open>long double\<close>, widening the narrowed \<open>2\<^sup>2\<^sup>4 + 1\<close> does not give it back.
\<close>

theorem trunctfsf2_extendsftf2_roundtrip:
  "(is_val binary32 f \<and> \<not> is_nan f \<and> contains ld binary32 \<longrightarrow>
      fp_eq (trunctfsf2 (extendsftf2 ld f)) f \<and>
      sign_bit (trunctfsf2 (extendsftf2 ld f)) = sign_bit f) \<and>
   (is_nan f \<longrightarrow> is_nan (trunctfsf2 (extendsftf2 ld f))) \<and>
   \<not> fp_eq (extendsftf2 binary64 (trunctfsf2 (Fin False 16777217 0))) (Fin False 16777217 0)"
proof (intro conjI impI)
  assume a: "is_val binary32 f \<and> \<not> is_nan f \<and> contains ld binary32"
  show "fp_eq (trunctfsf2 (extendsftf2 ld f)) f"
  proof (cases f)
    case NaN
    with a show ?thesis by (simp add: is_nan_def)
  next
    case (Inf s)
    then show ?thesis by (simp add: extendsftf2_def trunctfsf2_def fp_cast_def fp_eq_def)
  next
    case (Fin s m e)
    with a cast_roundtrip_finite [of m binary32 e ld s] show ?thesis
      by (simp add: is_val_def extendsftf2_def trunctfsf2_def)
  qed
  show "sign_bit (trunctfsf2 (extendsftf2 ld f)) = sign_bit f"
  proof (cases f)
    case NaN
    with a show ?thesis by (simp add: is_nan_def)
  next
    case (Inf s)
    then show ?thesis by (simp add: extendsftf2_def trunctfsf2_def fp_cast_def)
  next
    case (Fin s m e)
    with a cast_roundtrip_finite [of m binary32 e ld s] show ?thesis
      by (simp add: is_val_def extendsftf2_def trunctfsf2_def sign_bit_def)
  qed
next
  assume "is_nan f"
  then show "is_nan (trunctfsf2 (extendsftf2 ld f))"
    by (cases f) (simp_all add: is_nan_def extendsftf2_def trunctfsf2_def fp_cast_def)
next
  show "\<not> fp_eq (extendsftf2 binary64 (trunctfsf2 (Fin False 16777217 0))) (Fin False 16777217 0)"
    by (simp add: extendsftf2_def trunctfsf2_def fp_cast_def round_fp_def binary32_simps
      binary64_simps bitlen_numeral_simps bitlen_one scaled_def rne_def Let_def fp_eq_def aligned_def)
qed


theorem trunctfsf2_extendsftf2_roundtrip_witness:
  "is_val binary32 (Fin True 11 (- 3)) \<and> \<not> is_nan (Fin True 11 (- 3)) \<and>
   contains binary64 binary32 \<and>
   fp_eq (trunctfsf2 (extendsftf2 binary64 (Fin True 11 (- 3)))) (Fin True 11 (- 3)) \<and>
   sign_bit (trunctfsf2 (extendsftf2 binary64 (Fin True 11 (- 3)))) \<and>
   is_nan NaN \<and> is_nan (trunctfsf2 (extendsftf2 binary64 NaN))"
  using trunctfsf2_extendsftf2_roundtrip [of "Fin True 11 (- 3)" binary64]
    trunctfsf2_extendsftf2_roundtrip [of NaN binary64]
  by (simp add: is_val_def is_nan_def contains_def binary32_simps binary64_simps sign_bit_def)

section \<open>Widening of an unsigned 64-bit integer\<close>

lemma round_fp_exact_finite:
  assumes "m < 2 ^ prec fmt" "qmin fmt \<le> e" "e \<le> qmax fmt"
  shows "is_finite (round_fp fmt s (m * 2 ^ j) 1 (e - int j)) \<and>
         sign_bit (round_fp fmt s (m * 2 ^ j) 1 (e - int j)) = s"
proof (cases "m = 0")
  case True
  then show ?thesis by (simp add: round_fp_def is_finite_def sign_bit_def)
next
  case False
  then have "0 < m" by simp
  from round_fp_exact [OF this assms, of s j] show ?thesis
    by (simp add: is_finite_def sign_bit_def)
qed

text \<open>
  C7, as stated: \<^verbatim>\<open>__floatuntitf(a)\<close> is numerically equal to \<open>a\<close> for every unsigned
  64-bit \<open>a\<close>. It fails where \<^verbatim>\<open>long double\<close> is the 64-bit format, which has 53 bits of
  precision: \<open>2\<^sup>5\<^sup>3 + 1\<close> is rounded to \<open>2\<^sup>5\<^sup>3\<close>.
\<close>

theorem floatuntitf_inexact_counterexample:
  "valof (floatuntitf binary64 (2 ^ 53 + 1)) \<noteq> of_nat (unat (2 ^ 53 + 1 :: 64 word))"
  by (simp add: floatuntitf_def cast_of_uint64_def round_fp_def binary64_simps
      bitlen_numeral_simps bitlen_one scaled_def rne_def Let_def valof_def pow2_def)

text \<open>
  C7, amended: \<^verbatim>\<open>__floatuntitf(a)\<close> is a finite value numerically equal to \<open>a\<close> for every
  unsigned 64-bit \<open>a\<close> that is a number of the \<^verbatim>\<open>long double\<close> format, that is
  \<open>a = m * 2\<^sup>j\<close> with \<open>m\<close> below \<open>2\<close> to the precision of the format; on the 80-bit
  format, of precision 64, that is every unsigned 64-bit integer.
\<close>

theorem floatuntitf_exact_when_representable:
  "(unat a = m * 2 ^ j \<and> m < 2 ^ prec ld \<and> qmin ld \<le> 0 \<and> int j \<le> qmax ld \<longrightarrow>
      is_finite (floatuntitf ld a) \<and> valof (floatuntitf ld a) = of_nat (unat a)) \<and>
   is_finite (floatuntitf x87_extended a) \<and>
   valof (floatuntitf x87_extended a) = of_nat (unat a)"
proof -
  have g: "is_finite (floatuntitf fmt a) \<and> valof (floatuntitf fmt a) = of_nat (unat a)"
    if h: "unat a = n * 2 ^ i" "n < 2 ^ prec fmt" "qmin fmt \<le> 0" "int i \<le> qmax fmt"
    for fmt n i
  proof -
    have q: "qmin fmt \<le> int i" using h(3) by simp
    have v: "valof (round_fp fmt False (n * 2 ^ i) 1 0) = valof (Fin False n (int i))"
      using valof_round_fp_exact [OF h(2) q h(4), of False i] by simp
    have p: "valof (Fin False n (int i)) = of_nat (n * 2 ^ i)"
      by (simp add: valof_def pow2_def)
    have f: "is_finite (round_fp fmt False (n * 2 ^ i) 1 0)"
      using round_fp_exact_finite [OF h(2) q h(4), of False i] by simp
    from v p f show ?thesis
      by (simp only: floatuntitf_def cast_of_uint64_def h(1))
  qed
  have "unat a < 2 ^ 64"
    using unsigned_less [of a] by simp
  then have "is_finite (floatuntitf x87_extended a) \<and>
      valof (floatuntitf x87_extended a) = of_nat (unat a)"
    using g [of "unat a" 0 x87_extended] by (simp add: x87_extended_simps)
  with g [of m j ld] show ?thesis by blast
qed

theorem floatuntitf_exact_when_representable_witness:
  "unat (2 ^ 53 + 2 :: 64 word) = 4503599627370497 * 2 ^ 1 \<and>
   (4503599627370497 :: nat) < 2 ^ prec binary64 \<and> qmin binary64 \<le> 0 \<and>
   int 1 \<le> qmax binary64 \<and>
   valof (floatuntitf binary64 (2 ^ 53 + 2)) = of_nat (unat (2 ^ 53 + 2 :: 64 word))"
  using floatuntitf_exact_when_representable [of "2 ^ 53 + 2" 4503599627370497 1 binary64]
  by (simp add: binary64_simps)

section \<open>Casts to the 32-bit integers\<close>

lemma int_part_truncates:
  "int_part (Fin s m e) = Some (truncate_toward_zero (valof (Fin s m e)))"
proof (cases "0 \<le> e")
  case True
  have "(if s then - 1 else 1) * rat_of_nat m * 2 ^ nat e =
      of_int ((if s then - 1 else 1) * (int m * 2 ^ nat e))"
    by simp
  then have "valof (Fin s m e) = of_int ((if s then - 1 else 1) * (int m * 2 ^ nat e))"
    using True by (simp add: valof_def pow2_def)
  then have "truncate_toward_zero (valof (Fin s m e)) =
      (if s then - 1 else 1) * (int m * 2 ^ nat e)"
    unfolding truncate_toward_zero_def by (simp only: floor_of_int ceiling_of_int if_cancel)
  with True show ?thesis by (simp add: int_part_def)
next
  case False
  define k where "k = nat (- e)"
  define y :: rat where "y = of_int (int m) / of_int (2 ^ k)"
  have y0: "0 \<le> y" by (simp add: y_def)
  have fl: "\<lfloor>y\<rfloor> = int m div 2 ^ k"
    unfolding y_def by (rule floor_divide_of_int_eq)
  have v: "valof (Fin s m e) = (if s then - y else y)"
    using False by (simp add: valof_def pow2_def y_def k_def)
  have "truncate_toward_zero (valof (Fin s m e)) = (if s then - \<lfloor>y\<rfloor> else \<lfloor>y\<rfloor>)"
  proof (cases "s \<and> y \<noteq> 0")
    case True
    with y0 have "\<not> 0 \<le> - y" by simp
    with True show ?thesis
      unfolding v truncate_toward_zero_def by (simp add: ceiling_minus)
  next
    case False
    with y0 show ?thesis
      unfolding v truncate_toward_zero_def by auto
  qed
  with False show ?thesis
    by (simp add: int_part_def fl k_def)
qed

lemma truncate_signed_range:
  assumes "- (2 ^ 31) - 1 < x" "x < 2 ^ 31"
  shows "- (2 ^ 31) \<le> truncate_toward_zero x \<and> truncate_toward_zero x < 2 ^ 31"
proof (cases "0 \<le> x")
  case True
  then have "0 \<le> \<lfloor>x\<rfloor>" by simp
  moreover have "\<lfloor>x\<rfloor> < 2 ^ 31"
    using assms(2) by (simp add: floor_less_iff)
  ultimately show ?thesis using True by (simp add: truncate_toward_zero_def)
next
  case False
  then have "\<lceil>x\<rceil> \<le> 0" by (simp add: ceiling_le_iff)
  moreover have "- (2 ^ 31) - 1 < \<lceil>x\<rceil>"
    using assms(1) by (simp add: less_ceiling_iff)
  ultimately show ?thesis using False by (simp add: truncate_toward_zero_def)
qed

lemma truncate_unsigned_range:
  assumes "- 1 < x" "x < 2 ^ 32"
  shows "0 \<le> truncate_toward_zero x \<and> truncate_toward_zero x < 2 ^ 32"
proof (cases "0 \<le> x")
  case True
  then have "0 \<le> \<lfloor>x\<rfloor>" by simp
  moreover have "\<lfloor>x\<rfloor> < 2 ^ 32"
    using assms(2) by (simp add: floor_less_iff)
  ultimately show ?thesis using True by (simp add: truncate_toward_zero_def)
next
  case False
  have a: "- 1 < \<lceil>x\<rceil>"
    using assms(1) by (simp add: less_ceiling_iff)
  have b: "\<lceil>x\<rceil> \<le> 0"
    using False by (simp add: ceiling_le_iff)
  from a b have "\<lceil>x\<rceil> = 0" by linarith
  then show ?thesis using False by (simp add: truncate_toward_zero_def)
qed

lemma sint_in_range:
  "- (2 ^ 31) \<le> t \<Longrightarrow> t < 2 ^ 31 \<Longrightarrow> sint (word_of_int t :: 32 word) = t"
  by (simp add: signed_of_int signed_take_bit_int_eq_self)

lemma uint_in_range:
  "0 \<le> t \<Longrightarrow> t < 2 ^ 32 \<Longrightarrow> uint (word_of_int t :: 32 word) = t"
  by (simp add: unsigned_of_int take_bit_int_eq_self)

lemma fixtfsi_in_range:
  assumes "is_finite a" "- (2 ^ 31) - 1 < valof a" "valof a < 2 ^ 31"
  shows "map_option sint (fixtfsi a) = Some (truncate_toward_zero (valof a))"
proof -
  from assms(1) obtain s m e where a: "a = Fin s m e"
    by (cases a) (simp_all add: is_finite_def)
  from truncate_signed_range [OF assms(2,3)] sint_in_range [of "truncate_toward_zero (valof a)"]
  show ?thesis
    by (simp add: fixtfsi_def cast_int_def a int_part_truncates)
qed

lemma fixunstfsi_in_range:
  assumes "is_finite a" "- 1 < valof a" "valof a < 2 ^ 32"
  shows "map_option uint (fixunstfsi a) = Some (truncate_toward_zero (valof a))"
proof -
  from assms(1) obtain s m e where a: "a = Fin s m e"
    by (cases a) (simp_all add: is_finite_def)
  from truncate_unsigned_range [OF assms(2,3)] uint_in_range [of "truncate_toward_zero (valof a)"]
  show ?thesis
    by (simp add: fixunstfsi_def cast_uint_def a int_part_truncates)
qed


text \<open>
  C6: for every finite value whose integral part is a signed 32-bit integer,
  \<^verbatim>\<open>__fixtfsi\<close> returns the value truncated toward zero, and for every finite value
  whose integral part is an unsigned 32-bit integer so does \<^verbatim>\<open>__fixunstfsi\<close>; both
  map 2.9, that is the \<^verbatim>\<open>long double\<close> nearest to \<open>29/10\<close> in the 64-bit and in the
  80-bit format, to 2.
\<close>

theorem fix_truncates_toward_zero:
  "(is_finite a \<and> - (2 ^ 31) - 1 < valof a \<and> valof a < 2 ^ 31 \<longrightarrow>
      map_option sint (fixtfsi a) = Some (truncate_toward_zero (valof a))) \<and>
   (is_finite a \<and> - 1 < valof a \<and> valof a < 2 ^ 32 \<longrightarrow>
      map_option uint (fixunstfsi a) = Some (truncate_toward_zero (valof a))) \<and>
   fixtfsi (round_fp binary64 False 29 10 0) = Some 2 \<and>
   fixunstfsi (round_fp binary64 False 29 10 0) = Some 2 \<and>
   fixtfsi (round_fp x87_extended False 29 10 0) = Some 2 \<and>
   fixunstfsi (round_fp x87_extended False 29 10 0) = Some 2"
proof -
  have b: "round_fp binary64 False 29 10 0 = Fin False 6530219459687219 (- 51)"
    by (simp add: round_fp_def binary64_simps bitlen_numeral_simps bitlen_one scaled_def
        rne_def Let_def)
  have x: "round_fp x87_extended False 29 10 0 = Fin False 13373889453439424922 (- 62)"
    by (simp add: round_fp_def x87_extended_simps bitlen_numeral_simps bitlen_one scaled_def
        rne_def Let_def)
  have "fixtfsi (Fin False 6530219459687219 (- 51)) = Some 2"
    "fixunstfsi (Fin False 6530219459687219 (- 51)) = Some 2"
    "fixtfsi (Fin False 13373889453439424922 (- 62)) = Some 2"
    "fixunstfsi (Fin False 13373889453439424922 (- 62)) = Some 2"
    by (simp_all add: fixtfsi_def fixunstfsi_def cast_int_def cast_uint_def int_part_def)
  with fixtfsi_in_range [of a] fixunstfsi_in_range [of a] show ?thesis
    by (simp only: b x) blast
qed

theorem fix_truncates_toward_zero_witness:
  "is_finite (Fin True 7 (- 1)) \<and> - (2 ^ 31) - 1 < valof (Fin True 7 (- 1)) \<and>
   valof (Fin True 7 (- 1)) < 2 ^ 31 \<and> valof (Fin True 7 (- 1)) = - (7 / 2) \<and>
   map_option sint (fixtfsi (Fin True 7 (- 1))) = Some (- 3) \<and>
   is_finite (Fin False 5 (- 1)) \<and> - 1 < valof (Fin False 5 (- 1)) \<and>
   valof (Fin False 5 (- 1)) < 2 ^ 32 \<and> valof (Fin False 5 (- 1)) = 5 / 2 \<and>
   map_option uint (fixunstfsi (Fin False 5 (- 1))) = Some 2"
proof -
  have v: "valof (Fin True 7 (- 1)) = - (7 / 2)" "valof (Fin False 5 (- 1)) = 5 / 2"
    by (simp_all add: valof_def pow2_def)
  have "\<lceil>- (7 / 2 :: rat)\<rceil> = - 3"
    by (rule ceiling_unique) simp_all
  moreover have "\<lfloor>5 / 2 :: rat\<rfloor> = 2"
    by (rule floor_unique) simp_all
  ultimately have t: "truncate_toward_zero (- (7 / 2)) = - 3" "truncate_toward_zero (5 / 2) = 2"
    by (simp_all add: truncate_toward_zero_def)
  show ?thesis
    using fix_truncates_toward_zero [of "Fin True 7 (- 1)"]
      fix_truncates_toward_zero [of "Fin False 5 (- 1)"]
    by (simp add: v t is_finite_def)
qed

section \<open>The native rounding is to nearest, ties to even\<close>

text \<open>
  \<open>rne\<close> gives an integer nearest to the fraction, the even one of two; the exponent
  chosen by \<open>round_fp\<close> is that of the binade of the magnitude; so the result is the
  nearest datum of the format, also against the data of a finer exponent below the
  binade, and it overflows exactly from the threshold on.
\<close>

lemma pow2_mono: "a \<le> b \<Longrightarrow> pow2 a \<le> pow2 b"
  by (simp add: pow2_powi power_int_increasing)

lemma pow2_0: "pow2 0 = 1"
  by (simp add: pow2_def)

lemma pow2_int: "pow2 (int k) = 2 ^ k"
  by (simp add: pow2_def)

lemma pow2_cancel: "pow2 a * pow2 (- a) = 1"
  using pow2_add [of a "- a"] by (simp add: pow2_0)

lemma pow2_Suc: "pow2 (a + 1) = 2 * pow2 a"
  using pow2_add [of a 1] by (simp add: pow2_def)

lemma scaled_value:
  assumes "0 < d"
  shows "0 < snd (scaled n d k)"
    and "(of_nat (fst (scaled n d k)) / of_nat (snd (scaled n d k)) :: rat) =
          of_nat n / of_nat d * pow2 k"
  using assms by (simp_all add: scaled_def pow2_def)

text \<open>The fraction lies between its integer quotient and the next integer.\<close>

lemma rne_fraction:
  fixes num den :: nat
  assumes "0 < den"
  defines "y \<equiv> (of_nat num / of_nat den :: rat)"
  defines "f \<equiv> num div den"
  shows "of_nat f \<le> y" "y < of_nat f + 1"
    and "rne (num, den) =
           (if 2 * (y - of_nat f) < 1 then f
            else if 1 < 2 * (y - of_nat f) then f + 1
            else if even f then f else f + 1)"
proof -
  define r where "r = num mod den"
  have n: "num = f * den + r"
    by (simp add: f_def r_def)
  have d: "(0::rat) < of_nat den"
    using assms(1) by simp
  have y: "y - of_nat f = of_nat r / of_nat den"
    using d by (simp add: y_def n field_simps)
  have rl: "r < den"
    using assms(1) by (simp add: r_def)
  then have "(of_nat r :: rat) < of_nat den"
    by simp
  then have t1: "(of_nat r / of_nat den :: rat) < 1"
    using d by simp
  have t0: "(0::rat) \<le> of_nat r / of_nat den"
    by simp
  from y t0 show "of_nat f \<le> y" by linarith
  from y t1 show "y < of_nat f + 1" by linarith
  have a: "2 * (y - of_nat f) < 1 \<longleftrightarrow> 2 * r < den"
  proof -
    have "2 * (of_nat r / of_nat den :: rat) < 1 \<longleftrightarrow> (of_nat (2 * r) :: rat) < of_nat den"
      using d by (simp add: field_simps)
    also have "\<dots> \<longleftrightarrow> 2 * r < den"
      by (simp only: of_nat_less_iff)
    finally show ?thesis by (simp only: y)
  qed
  have b: "1 < 2 * (y - of_nat f) \<longleftrightarrow> den < 2 * r"
  proof -
    have "1 < 2 * (of_nat r / of_nat den :: rat) \<longleftrightarrow> (of_nat den :: rat) < of_nat (2 * r)"
      using d by (simp add: field_simps)
    also have "\<dots> \<longleftrightarrow> den < 2 * r"
      by (simp only: of_nat_less_iff)
    finally show ?thesis by (simp only: y)
  qed
  show "rne (num, den) =
           (if 2 * (y - of_nat f) < 1 then f
            else if 1 < 2 * (y - of_nat f) then f + 1
            else if even f then f else f + 1)"
    unfolding a b by (simp add: rne_def Let_def f_def r_def)
qed

lemma rne_closest:
  fixes num den :: nat and k :: int
  assumes "0 < den"
  shows "\<bar>of_nat (rne (num, den)) - (of_nat num / of_nat den :: rat)\<bar>
           \<le> \<bar>of_int k - of_nat num / of_nat den\<bar>"
proof -
  define y where "y = (of_nat num / of_nat den :: rat)"
  define f where "f = num div den"
  note p = rne_fraction [OF assms, of num, folded y_def f_def]
  have "k \<le> int f \<or> int f + 1 \<le> k" by linarith
  then have c: "(of_int k :: rat) \<le> of_nat f \<or> (of_nat f :: rat) + 1 \<le> of_int k"
  proof
    assume "k \<le> int f"
    then have "(of_int k :: rat) \<le> of_int (int f)" by (simp only: of_int_le_iff)
    then show ?thesis by simp
  next
    assume "int f + 1 \<le> k"
    then have "(of_int (int f + 1) :: rat) \<le> of_int k" by (simp only: of_int_le_iff)
    then show ?thesis by simp
  qed
  have "\<bar>of_nat (rne (num, den)) - y\<bar> \<le> \<bar>of_int k - y\<bar>"
    using p(1,2) c unfolding p(3) by (auto split: if_splits)
  then show ?thesis by (simp only: y_def)
qed

lemma rne_tie_even:
  fixes num den :: nat and k :: int
  assumes "0 < den" "k \<noteq> int (rne (num, den))"
    and "\<bar>of_int k - (of_nat num / of_nat den :: rat)\<bar>
           = \<bar>of_nat (rne (num, den)) - of_nat num / of_nat den\<bar>"
  shows "even (rne (num, den))"
proof -
  define y where "y = (of_nat num / of_nat den :: rat)"
  define f where "f = num div den"
  note p = rne_fraction [OF assms(1), of num, folded y_def f_def]
  have "k \<le> int f - 1 \<or> k = int f \<or> k = int f + 1 \<or> int f + 2 \<le> k" by linarith
  then have c: "(of_int k :: rat) \<le> of_nat f - 1 \<or> k = int f \<or> k = int f + 1
      \<or> (of_nat f :: rat) + 2 \<le> of_int k"
  proof (elim disjE)
    assume "k \<le> int f - 1"
    then have "(of_int k :: rat) \<le> of_int (int f - 1)" by (simp only: of_int_le_iff)
    then show ?thesis by simp
  next
    assume "int f + 2 \<le> k"
    then have "(of_int (int f + 2) :: rat) \<le> of_int k" by (simp only: of_int_le_iff)
    then show ?thesis by simp
  qed simp_all
  have e: "\<bar>of_int k - y\<bar> = \<bar>of_nat (rne (num, den)) - y\<bar>"
    using assms(3) by (simp only: y_def)
  show ?thesis
    using p(1,2) c e assms(2) unfolding p(3) by (auto split: if_splits)
qed


lemma pow2_diff: "pow2 (a - b) = pow2 a / pow2 b"
proof -
  have "pow2 (a - b) * pow2 b = pow2 a"
    using pow2_add [of "a - b" b] by simp
  then show ?thesis
    using pow2_pos [of b] by (simp add: field_simps)
qed

lemma bitlen_rat_bounds:
  assumes "0 < n"
  shows "pow2 (bitlen (int n) - 1) \<le> of_nat n" "of_nat n < pow2 (bitlen (int n))"
proof -
  have b: "1 \<le> bitlen (int n)" by (rule bitlen_pos [OF assms])
  from bitlen_bounds [of "int n"] assms
  have l: "2 ^ nat (bitlen (int n) - 1) \<le> int n" and u: "int n < 2 ^ nat (bitlen (int n))"
    by simp_all
  from l have "(of_int (2 ^ nat (bitlen (int n) - 1)) :: rat) \<le> of_int (int n)"
    by (simp only: of_int_le_iff)
  with b show "pow2 (bitlen (int n) - 1) \<le> of_nat n"
    by (simp add: pow2_def)
  from u have "(of_int (int n) :: rat) < of_int (2 ^ nat (bitlen (int n)))"
    by (simp only: of_int_less_iff)
  with b show "of_nat n < pow2 (bitlen (int n))"
    by (simp add: pow2_def)
qed

lemma binade_bounds:
  fixes n d :: nat and e :: int
  assumes "0 < n" "0 < d"
  defines "X \<equiv> (of_nat n / of_nat d :: rat) * pow2 e"
  defines "k \<equiv> bitlen (int n) - bitlen (int d) + e"
  shows "pow2 (k - 1) \<le> X" "X < pow2 (k + 1)"
proof -
  note bn = bitlen_rat_bounds [OF assms(1)]
  note bd = bitlen_rat_bounds [OF assms(2)]
  have dp: "(0::rat) < of_nat d" using assms(2) by simp
  have "pow2 (bitlen (int n) - 1) / pow2 (bitlen (int d)) \<le> (of_nat n / of_nat d :: rat)"
    by (rule frac_le) (use bn(1) bd(2) dp pow2_pos [of "bitlen (int n) - 1"] in simp_all)
  then have "pow2 (bitlen (int n) - 1 - bitlen (int d)) \<le> (of_nat n / of_nat d :: rat)"
    by (simp only: pow2_diff)
  then have "pow2 (bitlen (int n) - 1 - bitlen (int d)) * pow2 e \<le> X"
    unfolding X_def using pow2_pos [of e] by (simp only: mult_le_cancel_right_pos)
  moreover have "bitlen (int n) - 1 - bitlen (int d) + e = k - 1"
    by (simp add: k_def)
  ultimately show "pow2 (k - 1) \<le> X"
    by (simp only: pow2_add [symmetric])
  have "(of_nat n / of_nat d :: rat) < pow2 (bitlen (int n)) / pow2 (bitlen (int d) - 1)"
    by (rule frac_less) (use bn(2) bd(1) pow2_pos [of "bitlen (int d) - 1"] in simp_all)
  then have "(of_nat n / of_nat d :: rat) < pow2 (bitlen (int n) - (bitlen (int d) - 1))"
    by (simp only: pow2_diff)
  then have "X < pow2 (bitlen (int n) - (bitlen (int d) - 1)) * pow2 e"
    unfolding X_def using pow2_pos [of e] by (simp only: mult_less_cancel_right_pos)
  moreover have "bitlen (int n) - (bitlen (int d) - 1) + e = k + 1"
    by (simp add: k_def)
  ultimately show "X < pow2 (k + 1)"
    by (simp only: pow2_add [symmetric])
qed

lemma pow2_minus: "pow2 (- a) = 1 / pow2 a"
  using pow2_diff [of 0 a] by (simp add: pow2_0)

lemma fraction_ge_one:
  fixes a b :: nat
  assumes "0 < b"
  shows "b \<le> a \<longleftrightarrow> 1 \<le> (of_nat a / of_nat b :: rat)"
proof -
  have "1 \<le> (of_nat a / of_nat b :: rat) \<longleftrightarrow> (of_nat b :: rat) \<le> of_nat a"
    using assms by (simp add: le_divide_eq)
  also have "\<dots> \<longleftrightarrow> b \<le> a"
    by (simp only: of_nat_le_iff)
  finally show ?thesis by simp
qed

text \<open>What \<open>round_fp\<close> computes, in terms of the magnitude \<open>X\<close> it is given.\<close>

lemma round_fp_char:
  fixes n d :: nat and e :: int
  assumes "0 < n" "0 < d"
  defines "X \<equiv> (of_nat n / of_nat d :: rat) * pow2 e"
  shows "\<exists>m0 q. qmin fmt \<le> q \<and>
      (\<forall>k. \<bar>of_nat m0 - X * pow2 (- q)\<bar> \<le> \<bar>of_int k - X * pow2 (- q)\<bar>) \<and>
      (\<forall>k. k \<noteq> int m0 \<and> \<bar>of_int k - X * pow2 (- q)\<bar> = \<bar>of_nat m0 - X * pow2 (- q)\<bar>
           \<longrightarrow> even m0) \<and>
      X < pow2 (q + int (prec fmt)) \<and>
      (qmin fmt < q \<longrightarrow> pow2 (q + int (prec fmt) - 1) \<le> X) \<and>
      round_fp fmt s n d e =
        (if m0 = 2 ^ prec fmt
         then (if qmax fmt < q + 1 then Inf s else Fin s (2 ^ (prec fmt - 1)) (q + 1))
         else (if qmax fmt < q then Inf s else Fin s m0 q))"
proof -
  define k where "k = bitlen (int n) - bitlen (int d) + e"
  define ex where
    "ex = (if snd (scaled n d (e - k)) \<le> fst (scaled n d (e - k)) then k else k - 1)"
  define q where "q = max (ex - int (prec fmt) + 1) (qmin fmt)"
  define m0 where "m0 = rne (scaled n d (e - q))"
  note bb = binade_bounds [OF assms(1,2), of e, folded X_def k_def]
  have sv: "(of_nat (fst (scaled n d (e - j))) / of_nat (snd (scaled n d (e - j))) :: rat)
      = X * pow2 (- j)" for j
    using scaled_value(2) [OF assms(2), of n "e - j"] pow2_add [of e "- j"]
    by (simp add: X_def mult.assoc)
  have sp: "0 < snd (scaled n d (e - j))" for j
    by (rule scaled_value(1) [OF assms(2)])
  have ge1: "snd (scaled n d (e - k)) \<le> fst (scaled n d (e - k)) \<longleftrightarrow> pow2 k \<le> X"
  proof -
    have "snd (scaled n d (e - k)) \<le> fst (scaled n d (e - k)) \<longleftrightarrow> 1 \<le> X * pow2 (- k)"
      using fraction_ge_one [OF sp [of k]] by (simp only: sv)
    also have "\<dots> \<longleftrightarrow> pow2 k \<le> X"
      using pow2_pos [of k] by (simp add: pow2_minus le_divide_eq)
    finally show ?thesis .
  qed
  have exl: "pow2 ex \<le> X" and exu: "X < pow2 (ex + 1)"
    using bb ge1 by (auto simp: ex_def)
  have q1: "qmin fmt \<le> q" by (simp add: q_def)
  have "ex + 1 \<le> q + int (prec fmt)" by (simp add: q_def)
  then have "pow2 (ex + 1) \<le> pow2 (q + int (prec fmt))" by (rule pow2_mono)
  with exu have q2: "X < pow2 (q + int (prec fmt))" by simp
  have q3: "qmin fmt < q \<longrightarrow> pow2 (q + int (prec fmt) - 1) \<le> X"
  proof
    assume "qmin fmt < q"
    then have "q + int (prec fmt) - 1 = ex" by (simp add: q_def max_def split: if_splits)
    with exl show "pow2 (q + int (prec fmt) - 1) \<le> X" by simp
  qed
  have c: "\<bar>of_nat m0 - X * pow2 (- q)\<bar> \<le> \<bar>of_int j - X * pow2 (- q)\<bar>" for j
    using rne_closest [OF sp [of q], of "fst (scaled n d (e - q))" j]
    by (simp add: m0_def sv)
  have t: "even m0"
    if "j \<noteq> int m0" "\<bar>of_int j - X * pow2 (- q)\<bar> = \<bar>of_nat m0 - X * pow2 (- q)\<bar>" for j
    using rne_tie_even [OF sp [of q], of j "fst (scaled n d (e - q))"] that
    by (simp add: m0_def sv)
  have r: "round_fp fmt s n d e =
        (if m0 = 2 ^ prec fmt
         then (if qmax fmt < q + 1 then Inf s else Fin s (2 ^ (prec fmt - 1)) (q + 1))
         else (if qmax fmt < q then Inf s else Fin s m0 q))"
    using assms(1) unfolding round_fp_def Let_def k_def [symmetric] ex_def [symmetric]
      q_def [symmetric] m0_def [symmetric] by simp
  from q1 c t q2 q3 r show ?thesis by blast
qed

lemma nearest_upper:
  fixes y :: rat and m0 :: nat and K :: int
  assumes "\<And>k. \<bar>of_nat m0 - y\<bar> \<le> \<bar>of_int k - y\<bar>" "y \<le> of_int K"
  shows "int m0 \<le> K"
proof (rule ccontr)
  assume "\<not> int m0 \<le> K"
  then have "K + 1 \<le> int m0" by simp
  then have "(of_int (K + 1) :: rat) \<le> of_int (int m0)" by (simp only: of_int_le_iff)
  then have "(of_int K :: rat) + 1 \<le> of_nat m0" by simp
  with assms(1) [of K] assms(2) show False by linarith
qed

lemma nearest_lower:
  fixes y :: rat and m0 :: nat and K :: int
  assumes "\<And>k. \<bar>of_nat m0 - y\<bar> \<le> \<bar>of_int k - y\<bar>" "of_int K \<le> y"
  shows "K \<le> int m0"
proof (rule ccontr)
  assume "\<not> K \<le> int m0"
  then have "int m0 + 1 \<le> K" by simp
  then have "(of_int (int m0 + 1) :: rat) \<le> of_int K" by (simp only: of_int_le_iff)
  then have "(of_nat m0 :: rat) + 1 \<le> of_int K" by simp
  with assms(1) [of K] assms(2) show False by linarith
qed

lemma rescale_abs: "\<bar>v - X\<bar> = pow2 q * \<bar>v * pow2 (- q) - X * pow2 (- q)\<bar>"
proof -
  have "v - X = pow2 q * (v * pow2 (- q) - X * pow2 (- q))"
    using pow2_cancel [of q] by (simp add: algebra_simps)
  then have "\<bar>v - X\<bar> = \<bar>pow2 q\<bar> * \<bar>v * pow2 (- q) - X * pow2 (- q)\<bar>"
    by (simp only: abs_mult)
  then show ?thesis using pow2_pos [of q] by simp
qed

text \<open>No significand below \<open>2\<^sup>p\<close> at any exponent from the lowest on is closer.\<close>

lemma closest_representable:
  fixes X w :: rat and m0 M p :: nat and q E lowest :: int
  assumes X0: "0 \<le> X" and p1: "1 \<le> p"
    and c': "\<forall>k. \<bar>of_nat m0 - X * pow2 (- q)\<bar> \<le> \<bar>of_int k - X * pow2 (- q)\<bar>"
    and t': "\<forall>k. k \<noteq> int m0 \<and>
          \<bar>of_int k - X * pow2 (- q)\<bar> = \<bar>of_nat m0 - X * pow2 (- q)\<bar> \<longrightarrow> even m0"
    and lo': "lowest < q \<longrightarrow> pow2 (q + int p - 1) \<le> X"
    and M: "M < 2 ^ p" and E: "lowest \<le> E"
    and w: "w = of_nat M * pow2 E \<or> w = - (of_nat M * pow2 E)"
  shows "\<bar>of_nat m0 * pow2 q - X\<bar> \<le> \<bar>w - X\<bar>"
    and "w \<noteq> of_nat m0 * pow2 q \<Longrightarrow> \<bar>w - X\<bar> = \<bar>of_nat m0 * pow2 q - X\<bar> \<Longrightarrow> even m0"
proof -
  have c: "\<bar>of_nat m0 - X * pow2 (- q)\<bar> \<le> \<bar>of_int k - X * pow2 (- q)\<bar>" for k
    using c' by blast
  have t: "even m0"
    if "k \<noteq> int m0" "\<bar>of_int k - X * pow2 (- q)\<bar> = \<bar>of_nat m0 - X * pow2 (- q)\<bar>" for k
    using t' that by blast
  have lo: "pow2 (q + int p - 1) \<le> X" if "lowest < q"
    using lo' that by blast
  define y where "y = X * pow2 (- q)"
  define u where "u = w * pow2 (- q)"
  have y0: "0 \<le> y" using X0 pow2_pos [of "- q"] by (simp add: y_def)
  have mq: "of_nat m0 * pow2 q * pow2 (- q) = (of_nat m0 :: rat)"
    using pow2_cancel [of q] by (simp add: mult.assoc)
  have rm: "\<bar>of_nat m0 * pow2 q - X\<bar> = pow2 q * \<bar>of_nat m0 - y\<bar>"
    using rescale_abs [of "of_nat m0 * pow2 q" X q] by (simp only: mq y_def)
  have rw: "\<bar>w - X\<bar> = pow2 q * \<bar>u - y\<bar>"
    using rescale_abs [of w X q] by (simp only: u_def y_def)
  have weq: "w = of_nat m0 * pow2 q \<longleftrightarrow> u = of_nat m0"
  proof
    assume "w = of_nat m0 * pow2 q"
    then show "u = of_nat m0" by (simp only: u_def mq)
  next
    assume "u = of_nat m0"
    then have "w * pow2 (- q) * pow2 q = of_nat m0 * pow2 q" by (simp only: u_def)
    moreover have "w * pow2 (- q) * pow2 q = w"
      using pow2_cancel [of q] by (simp add: mult.assoc mult.commute [of "pow2 (- q)" "pow2 q"])
    ultimately show "w = of_nat m0 * pow2 q" by simp
  qed
  have main: "\<bar>of_nat m0 - y\<bar> \<le> \<bar>u - y\<bar> \<and>
      (u \<noteq> of_nat m0 \<and> \<bar>u - y\<bar> = \<bar>of_nat m0 - y\<bar> \<longrightarrow> even m0)"
  proof -
    consider (neg) "u \<le> 0" | (coarse) "0 < u" "q \<le> E" | (fine) "0 < u" "E < q"
      by linarith
    then show ?thesis
    proof cases
      case neg
      have c0: "\<bar>of_nat m0 - y\<bar> \<le> \<bar>0 - y\<bar>"
        using c [of 0] by (simp add: y_def)
      have "\<bar>of_nat m0 - y\<bar> \<le> \<bar>u - y\<bar>"
        using c0 neg y0 by linarith
      moreover have "even m0" if "u \<noteq> of_nat m0" "\<bar>u - y\<bar> = \<bar>of_nat m0 - y\<bar>"
      proof -
        from that(2) c0 neg y0 have u0: "u = 0" by linarith
        with that(1) have a: "0 \<noteq> int m0" by auto
        have b: "\<bar>of_int 0 - X * pow2 (- q)\<bar> = \<bar>of_nat m0 - X * pow2 (- q)\<bar>"
          using that(2) u0 by (simp add: y_def)
        from a b show ?thesis by (rule t)
      qed
      ultimately show ?thesis by blast
    next
      case coarse
      have wpos: "w = of_nat M * pow2 E"
      proof (rule ccontr)
        assume "w \<noteq> of_nat M * pow2 E"
        with w have "w = - (of_nat M * pow2 E)" by simp
        moreover have "0 \<le> of_nat M * pow2 E" using pow2_pos [of E] by simp
        ultimately have "w \<le> 0" by simp
        then have "u \<le> 0"
          using pow2_pos [of "- q"] by (simp add: u_def mult_nonpos_nonneg)
        with coarse(1) show False by simp
      qed
      have "pow2 E * pow2 (- q) = pow2 (E - q)"
        using pow2_add [of E "- q"] by simp
      moreover have "pow2 (E - q) = 2 ^ nat (E - q)"
        using coarse(2) by (simp add: pow2_def)
      ultimately have "u = of_nat M * 2 ^ nat (E - q)"
        by (simp add: u_def wpos mult.assoc)
      then have ui: "u = of_int (int (M * 2 ^ nat (E - q)))" by simp
      have "\<bar>of_nat m0 - y\<bar> \<le> \<bar>u - y\<bar>"
        unfolding ui using c by (simp only: y_def)
      moreover have "even m0" if "u \<noteq> of_nat m0" "\<bar>u - y\<bar> = \<bar>of_nat m0 - y\<bar>"
      proof -
        from that(1) have a: "int (M * 2 ^ nat (E - q)) \<noteq> int m0"
          unfolding ui by (metis of_int_of_nat_eq)
        have b: "\<bar>of_int (int (M * 2 ^ nat (E - q))) - X * pow2 (- q)\<bar>
            = \<bar>of_nat m0 - X * pow2 (- q)\<bar>"
          using that(2) unfolding ui y_def .
        from a b show ?thesis by (rule t)
      qed
      ultimately show ?thesis by blast
    next
      case fine
      have wpos: "w = of_nat M * pow2 E"
      proof (rule ccontr)
        assume "w \<noteq> of_nat M * pow2 E"
        with w have "w = - (of_nat M * pow2 E)" by simp
        moreover have "0 \<le> of_nat M * pow2 E" using pow2_pos [of E] by simp
        ultimately have "w \<le> 0" by simp
        then have "u \<le> 0"
          using pow2_pos [of "- q"] by (simp add: u_def mult_nonpos_nonneg)
        with fine(1) show False by simp
      qed
      from fine(2) E have "lowest < q" by simp
      from lo [OF this] have "pow2 (q + int p - 1) * pow2 (- q) \<le> y"
        unfolding y_def using pow2_pos [of "- q"] by (simp only: mult_le_cancel_right_pos)
      moreover have "q + int p - 1 + (- q) = int (p - 1)" using p1 by simp
      ultimately have ylow: "2 ^ (p - 1) \<le> y"
        by (simp only: pow2_add [symmetric] pow2_int)
      have "E - q \<le> - 1" using fine(2) by simp
      then have "pow2 (E - q) \<le> pow2 (- 1)" by (rule pow2_mono)
      then have h: "pow2 (E - q) \<le> 1 / 2" by (simp add: pow2_def)
      have "M + 1 \<le> 2 ^ p" using M by simp
      then have "(of_nat (M + 1) :: rat) \<le> of_nat (2 ^ p)" by (simp only: of_nat_le_iff)
      then have Mb: "(of_nat M :: rat) \<le> 2 ^ p - 1" by simp
      have "u = of_nat M * pow2 (E - q)"
        using pow2_add [of E "- q"] by (simp add: u_def wpos mult.assoc)
      also have "\<dots> \<le> of_nat M * (1 / 2)"
        by (rule mult_left_mono) (use h in simp_all)
      also have "\<dots> \<le> (2 ^ p - 1) * (1 / 2)"
        using Mb by simp
      finally have "u \<le> (2 ^ p - 1) / 2" by simp
      moreover have "(2::rat) ^ p = 2 * 2 ^ (p - 1)"
        using p1 by (cases p) simp_all
      ultimately have ub: "u \<le> 2 ^ (p - 1) - 1 / 2" by simp
      have "\<bar>of_nat m0 - y\<bar> \<le> \<bar>of_int (2 ^ (p - 1)) - y\<bar>"
        using c [of "2 ^ (p - 1)"] by (simp only: y_def)
      then have "\<bar>of_nat m0 - y\<bar> \<le> \<bar>2 ^ (p - 1) - y\<bar>" by simp
      with ylow ub have "\<bar>of_nat m0 - y\<bar> < \<bar>u - y\<bar>" by linarith
      then show ?thesis by simp
    qed
  qed
  from main show "\<bar>of_nat m0 * pow2 q - X\<bar> \<le> \<bar>w - X\<bar>"
    unfolding rm rw using pow2_pos [of q] by (simp add: mult_le_cancel_left_pos)
  assume "w \<noteq> of_nat m0 * pow2 q" "\<bar>w - X\<bar> = \<bar>of_nat m0 * pow2 q - X\<bar>"
  then have "u \<noteq> of_nat m0" "\<bar>u - y\<bar> = \<bar>of_nat m0 - y\<bar>"
    unfolding rm rw weq using pow2_pos [of q] by simp_all
  with main show "even m0" by blast
qed

text \<open>The result is finite exactly below the overflow threshold.\<close>

lemma rounding_overflow:
  fixes X :: rat and m0 p :: nat and q lowest highest :: int
  assumes p1: "1 \<le> p" and lh: "lowest \<le> highest" and ql: "lowest \<le> q"
    and c': "\<forall>k. \<bar>of_nat m0 - X * pow2 (- q)\<bar> \<le> \<bar>of_int k - X * pow2 (- q)\<bar>"
    and t': "\<forall>k. k \<noteq> int m0 \<and>
          \<bar>of_int k - X * pow2 (- q)\<bar> = \<bar>of_nat m0 - X * pow2 (- q)\<bar> \<longrightarrow> even m0"
    and up: "X < pow2 (q + int p)"
    and lo': "lowest < q \<longrightarrow> pow2 (q + int p - 1) \<le> X"
  shows "(m0 = 2 ^ p \<longrightarrow> q + 1 \<le> highest) \<and> (m0 \<noteq> 2 ^ p \<longrightarrow> q \<le> highest)
           \<longleftrightarrow> X < (2 ^ p - 1 / 2) * pow2 highest"
proof -
  have c: "\<bar>of_nat m0 - X * pow2 (- q)\<bar> \<le> \<bar>of_int k - X * pow2 (- q)\<bar>" for k
    using c' by blast
  have t: "even m0"
    if "k \<noteq> int m0" "\<bar>of_int k - X * pow2 (- q)\<bar> = \<bar>of_nat m0 - X * pow2 (- q)\<bar>" for k
    using t' that by blast
  have lo: "pow2 (q + int p - 1) \<le> X" if "lowest < q"
    using lo' that by blast
  define y where "y = X * pow2 (- q)"
  have Xy: "X = y * pow2 q"
    using pow2_cancel [of q] by (simp add: y_def mult.assoc mult.commute [of "pow2 (- q)" "pow2 q"])
  have "X * pow2 (- q) < pow2 (q + int p) * pow2 (- q)"
    using up pow2_pos [of "- q"] by (simp only: mult_less_cancel_right_pos)
  moreover have "q + int p + (- q) = int p" by simp
  ultimately have yu: "y < 2 ^ p"
    unfolding y_def by (simp only: pow2_add [symmetric] pow2_int)
  have two: "(2::rat) ^ p = 2 * 2 ^ (p - 1)"
    using p1 by (cases p) simp_all
  have one: "(1::rat) \<le> 2 ^ (p - 1)" by simp
  have m0u: "int m0 \<le> 2 ^ p"
    by (rule nearest_upper [of m0 y]) (use c yu in \<open>simp_all add: y_def\<close>)
  have cy: "\<bar>of_nat m0 - y\<bar> \<le> \<bar>of_int k - y\<bar>" for k
    using c [of k] by (simp only: y_def)
  show ?thesis
  proof
    assume fin: "(m0 = 2 ^ p \<longrightarrow> q + 1 \<le> highest) \<and> (m0 \<noteq> 2 ^ p \<longrightarrow> q \<le> highest)"
    show "X < (2 ^ p - 1 / 2) * pow2 highest"
    proof (cases "q + 1 \<le> highest")
      case True
      then have "q + int p \<le> int (p - 1) + highest" using p1 by simp
      then have "pow2 (q + int p) \<le> pow2 (int (p - 1) + highest)" by (rule pow2_mono)
      with up have "X < 2 ^ (p - 1) * pow2 highest"
        by (simp add: pow2_add pow2_int)
      moreover have "(2::rat) ^ (p - 1) \<le> 2 ^ p - 1 / 2"
        using two one by linarith
      then have "(2::rat) ^ (p - 1) * pow2 highest \<le> (2 ^ p - 1 / 2) * pow2 highest"
        using pow2_pos [of highest] by (simp only: mult_le_cancel_right_pos)
      ultimately show ?thesis by simp
    next
      case False
      with fin have qh: "q = highest" and ne: "m0 \<noteq> 2 ^ p"
        by auto
      have "y < 2 ^ p - 1 / 2"
      proof (rule ccontr)
        assume "\<not> y < 2 ^ p - 1 / 2"
        then have yl: "2 ^ p - 1 / 2 \<le> y" by simp
        from m0u have "m0 \<le> 2 ^ p" by simp
        with ne have "m0 + 1 \<le> 2 ^ p" by simp
        then have "(of_nat (m0 + 1) :: rat) \<le> of_nat (2 ^ p)" by (simp only: of_nat_le_iff)
        then have mb: "(of_nat m0 :: rat) + 1 \<le> 2 ^ p" by simp
        have ck: "\<bar>of_nat m0 - y\<bar> \<le> \<bar>2 ^ p - y\<bar>"
          using cy [of "2 ^ p"] by simp
        from ck yl yu mb have e1: "of_nat m0 = (2::rat) ^ p - 1" and e2: "y = 2 ^ p - 1 / 2"
          by linarith+
        have "(of_nat m0 :: rat) = of_nat (2 ^ p - 1)"
          using e1 by (simp add: of_nat_diff)
        then have m0e: "m0 = 2 ^ p - 1" by (simp only: of_nat_eq_iff)
        have a: "(2::int) ^ p \<noteq> int m0"
          using ne by (metis of_nat_numeral of_nat_power of_nat_eq_iff)
        have b: "\<bar>of_int (2 ^ p) - X * pow2 (- q)\<bar> = \<bar>of_nat m0 - X * pow2 (- q)\<bar>"
          using e1 e2 by (simp add: y_def [symmetric])
        from a b have "even m0" by (rule t)
        moreover have "odd ((2::nat) ^ p - 1)"
          using p1 by simp
        ultimately show False by (simp only: m0e)
      qed
      then have "y * pow2 q < (2 ^ p - 1 / 2) * pow2 q"
        using pow2_pos [of q] by (simp only: mult_less_cancel_right_pos)
      then show ?thesis unfolding Xy qh .
    qed
  next
    assume small: "X < (2 ^ p - 1 / 2) * pow2 highest"
    have qh: "q \<le> highest"
    proof (rule ccontr)
      assume "\<not> q \<le> highest"
      then have h: "highest < q" by simp
      with lh have "lowest < q" by simp
      from lo [OF this] have "pow2 (q + int p - 1) \<le> X" .
      moreover have "int p + highest \<le> q + int p - 1" using h by simp
      then have "pow2 (int p + highest) \<le> pow2 (q + int p - 1)" by (rule pow2_mono)
      ultimately have "2 ^ p * pow2 highest \<le> X"
        by (simp add: pow2_add pow2_int)
      moreover have "(2 ^ p - 1 / 2) * pow2 highest < 2 ^ p * pow2 highest"
        using pow2_pos [of highest] by simp
      ultimately show False using small by simp
    qed
    have "q + 1 \<le> highest" if "m0 = 2 ^ p"
    proof (rule ccontr)
      assume "\<not> q + 1 \<le> highest"
      with qh have qe: "q = highest" by simp
      have "(of_nat m0 :: rat) = 2 ^ p" using that by simp
      with cy [of "2 ^ p - 1"] have "\<bar>2 ^ p - y\<bar> \<le> \<bar>2 ^ p - 1 - y\<bar>" by simp
      with yu have "2 ^ p - 1 / 2 \<le> y" by linarith
      then have "(2 ^ p - 1 / 2) * pow2 q \<le> y * pow2 q"
        using pow2_pos [of q] by (simp only: mult_le_cancel_right_pos)
      with small show False unfolding Xy qe by simp
    qed
    with qh show "(m0 = 2 ^ p \<longrightarrow> q + 1 \<le> highest) \<and> (m0 \<noteq> 2 ^ p \<longrightarrow> q \<le> highest)"
      by simp
  qed
qed

lemma signed_distance:
  fixes v X :: rat
  defines "g \<equiv> (\<lambda>s. if s then - 1 else (1::rat))"
  shows "\<bar>g s * v - g s * X\<bar> = \<bar>v - X\<bar>" "\<bar>c - g s * X\<bar> = \<bar>g s * c - X\<bar>"
    "g s * c = v \<longleftrightarrow> c = g s * v"
  by (auto simp: g_def)

text \<open>The rounding of the model is rounding to nearest, ties to even.\<close>

lemma round_fp_correctly_rounded:
  fixes n d :: nat and e :: int
  assumes d: "0 < d" and vf: "valid_format fmt"
  shows "correctly_rounded fmt s ((if s then - 1 else 1) * (of_nat n / of_nat d * pow2 e))
           (round_fp fmt s n d e)"
proof (cases "n = 0")
  case True
  have "(0::rat) < 2 ^ prec fmt - 1 / 2"
  proof -
    have "(1::rat) \<le> 2 ^ prec fmt" by simp
    then show ?thesis by linarith
  qed
  then have "0 < overflow_threshold fmt"
    using pow2_pos [of "qmax fmt"] by (simp add: overflow_threshold_def)
  moreover have "qmin fmt \<le> qmax fmt"
    using vf by (simp add: valid_format_def qmin_def qmax_def)
  ultimately show ?thesis
    using True
    by (simp add: correctly_rounded_def round_fp_def is_nan_def sign_bit_def is_val_def
        normalised_def is_finite_def valof_def)
next
  case False
  then have n: "0 < n" by simp
  define X where "X = (of_nat n / of_nat d :: rat) * pow2 e"
  define g where "g = (if s then - 1 else (1::rat))"
  define p where "p = prec fmt"
  define r where "r = round_fp fmt s n d e"
  have X0: "0 < X"
    using n d pow2_pos [of e] by (simp add: X_def)
  have p1: "1 \<le> p" and p2: "2 \<le> p" and lh: "qmin fmt \<le> qmax fmt"
    using vf by (simp_all add: valid_format_def qmin_def qmax_def p_def)
  from round_fp_char [OF n d, of fmt e s, folded X_def p_def r_def]
  obtain m0 q where ql: "qmin fmt \<le> q"
    and c: "\<forall>k. \<bar>of_nat m0 - X * pow2 (- q)\<bar> \<le> \<bar>of_int k - X * pow2 (- q)\<bar>"
    and t: "\<forall>k. k \<noteq> int m0 \<and>
          \<bar>of_int k - X * pow2 (- q)\<bar> = \<bar>of_nat m0 - X * pow2 (- q)\<bar> \<longrightarrow> even m0"
    and up: "X < pow2 (q + int p)"
    and lo: "qmin fmt < q \<longrightarrow> pow2 (q + int p - 1) \<le> X"
    and res: "r = (if m0 = 2 ^ p
         then (if qmax fmt < q + 1 then Inf s else Fin s (2 ^ (p - 1)) (q + 1))
         else (if qmax fmt < q then Inf s else Fin s m0 q))"
    by blast
  have ck: "\<bar>of_nat m0 - X * pow2 (- q)\<bar> \<le> \<bar>of_int k - X * pow2 (- q)\<bar>" for k
    using c by blast
  define V where "V = (of_nat m0 :: rat) * pow2 q"
  have ov: "(m0 = 2 ^ p \<longrightarrow> q + 1 \<le> qmax fmt) \<and> (m0 \<noteq> 2 ^ p \<longrightarrow> q \<le> qmax fmt)
      \<longleftrightarrow> X < overflow_threshold fmt"
    using rounding_overflow [OF p1 lh ql c t up lo] by (simp only: overflow_threshold_def p_def)
  have yu: "X * pow2 (- q) \<le> of_int (2 ^ p)"
  proof -
    have "X * pow2 (- q) < pow2 (q + int p) * pow2 (- q)"
      using up pow2_pos [of "- q"] by (simp only: mult_less_cancel_right_pos)
    moreover have "q + int p + (- q) = int p" by simp
    ultimately have "X * pow2 (- q) < 2 ^ p"
      by (simp only: pow2_add [symmetric] pow2_int)
    then show ?thesis by simp
  qed
  have "int m0 \<le> 2 ^ p"
    by (rule nearest_upper [OF ck yu])
  then have m0u: "m0 \<le> 2 ^ p" by simp
  have m0l: "2 ^ (p - 1) \<le> m0" if "qmin fmt < q"
  proof -
    from lo that have "pow2 (q + int p - 1) \<le> X" by blast
    then have "pow2 (q + int p - 1) * pow2 (- q) \<le> X * pow2 (- q)"
      using pow2_pos [of "- q"] by (simp only: mult_le_cancel_right_pos)
    moreover have "q + int p - 1 + (- q) = int (p - 1)" using p1 by simp
    ultimately have "2 ^ (p - 1) \<le> X * pow2 (- q)"
      by (simp only: pow2_add [symmetric] pow2_int)
    then have "of_int (2 ^ (p - 1)) \<le> X * pow2 (- q)" by simp
    from nearest_lower [OF ck this] show ?thesis by simp
  qed
  have two: "(2::nat) ^ p = 2 * 2 ^ (p - 1)"
    using p1 by (cases p) simp_all
  have fin: "is_finite r \<longleftrightarrow>
      (m0 = 2 ^ p \<longrightarrow> q + 1 \<le> qmax fmt) \<and> (m0 \<noteq> 2 ^ p \<longrightarrow> q \<le> qmax fmt)"
    by (auto simp: res is_finite_def)
  have basic: "\<not> is_nan r \<and> sign_bit r = s"
    by (simp add: res is_nan_def sign_bit_def)
  have wf: "is_val fmt r \<and> normalised fmt r"
  proof (cases "m0 = 2 ^ p")
    case True
    then show ?thesis
      using ql two by (simp add: res is_val_def normalised_def p_def)
  next
    case False
    with m0u have "m0 < 2 ^ p" by simp
    with False m0l ql show ?thesis
      by (auto simp: res is_val_def normalised_def p_def)
  qed
  have val: "valof r = g * V" if "is_finite r"
  proof (cases "m0 = 2 ^ p")
    case True
    have "(of_nat (2 ^ (p - 1)) :: rat) * pow2 (q + 1) = of_nat (2 ^ p) * pow2 q"
      by (simp add: pow2_Suc two)
    with True that show ?thesis
      by (simp add: res valof_def g_def V_def is_finite_def mult.assoc split: if_splits)
  next
    case False
    with that show ?thesis
      by (simp add: res valof_def g_def V_def is_finite_def mult.assoc split: if_splits)
  qed
  have par: "even (significand r)" if "is_finite r" "even m0"
  proof (cases "m0 = 2 ^ p")
    case True
    have "even ((2::nat) ^ (p - 1))" using p2 by simp
    with True that(1) show ?thesis
      by (simp add: res significand_def is_finite_def split: if_splits)
  next
    case False
    with that show ?thesis
      by (simp add: res significand_def is_finite_def split: if_splits)
  qed
  have near: "\<bar>valof r - g * X\<bar> \<le> \<bar>valof c - g * X\<bar> \<and>
      (valof c \<noteq> valof r \<and> \<bar>valof c - g * X\<bar> = \<bar>valof r - g * X\<bar> \<longrightarrow> even (significand r))"
    if fr: "is_finite r" and fc: "is_finite c" and vc: "is_val fmt c" for c
  proof -
    from fc obtain u M E where ce: "c = Fin u M E"
      by (cases c) (simp_all add: is_finite_def)
    with vc have M: "M < 2 ^ p" and E: "qmin fmt \<le> E"
      by (simp_all add: is_val_def p_def)
    define w where "w = g * valof c"
    have w: "w = of_nat M * pow2 E \<or> w = - (of_nat M * pow2 E)"
      by (auto simp: w_def g_def ce valof_def)
    note cl = closest_representable [OF less_imp_le [OF X0] p1 c t lo M E w, folded V_def]
    have d1: "\<bar>valof r - g * X\<bar> = \<bar>V - X\<bar>"
      unfolding val [OF fr] g_def by (rule signed_distance(1))
    have d2: "\<bar>valof c - g * X\<bar> = \<bar>w - X\<bar>"
      unfolding w_def g_def by (rule signed_distance(2))
    have d3: "w = V \<longleftrightarrow> valof c = valof r"
      unfolding w_def val [OF fr] g_def by (rule signed_distance(3))
    from cl(1) have "\<bar>valof r - g * X\<bar> \<le> \<bar>valof c - g * X\<bar>"
      by (simp only: d1 d2)
    moreover have "even (significand r)"
      if "valof c \<noteq> valof r" "\<bar>valof c - g * X\<bar> = \<bar>valof r - g * X\<bar>"
    proof -
      from that have "w \<noteq> V" "\<bar>w - X\<bar> = \<bar>V - X\<bar>"
        by (simp_all only: d1 d2 d3 not_False_eq_True)
      from cl(2) [OF this] par [OF fr] show ?thesis by simp
    qed
    ultimately show ?thesis by blast
  qed
  have ax: "\<bar>g * X\<bar> = X"
    using X0 by (simp add: g_def)
  have fin2: "is_finite r \<longleftrightarrow> X < overflow_threshold fmt"
    using fin ov by simp
  have n: "is_finite r \<longrightarrow>
      (\<forall>c. is_finite c \<and> is_val fmt c \<longrightarrow> \<bar>valof r - g * X\<bar> \<le> \<bar>valof c - g * X\<bar>) \<and>
      (\<forall>c. is_finite c \<and> is_val fmt c \<and> valof c \<noteq> valof r \<and>
           \<bar>valof c - g * X\<bar> = \<bar>valof r - g * X\<bar> \<longrightarrow> even (significand r))"
    using near by blast
  have "correctly_rounded fmt s (g * X) r"
    unfolding correctly_rounded_def ax
    using basic wf fin2 n by (intro conjI) simp_all
  then show ?thesis
    by (simp only: g_def X_def r_def)
qed

text \<open>A quotient that is a number of the format is returned as it is.\<close>

lemma is_val_below_threshold:
  assumes "is_finite c" "is_val fmt c"
  shows "\<bar>valof c\<bar> < overflow_threshold fmt"
proof -
  from assms(1) obtain u M E where ce: "c = Fin u M E"
    by (cases c) (simp_all add: is_finite_def)
  with assms(2) have M: "M < 2 ^ prec fmt" and E: "E \<le> qmax fmt"
    by (simp_all add: is_val_def)
  from M have "M + 1 \<le> 2 ^ prec fmt" by simp
  then have "(of_nat (M + 1) :: rat) \<le> of_nat (2 ^ prec fmt)" by (simp only: of_nat_le_iff)
  then have Mb: "(of_nat M :: rat) \<le> 2 ^ prec fmt - 1" by simp
  have "\<bar>valof c\<bar> = of_nat M * pow2 E"
    using pow2_pos [of E] by (simp add: ce valof_def abs_mult)
  also have "\<dots> \<le> of_nat M * pow2 (qmax fmt)"
    by (rule mult_left_mono) (use pow2_mono [OF E] in simp_all)
  also have "\<dots> \<le> (2 ^ prec fmt - 1) * pow2 (qmax fmt)"
    using Mb pow2_pos [of "qmax fmt"] by (simp only: mult_le_cancel_right_pos)
  also have "\<dots> < (2 ^ prec fmt - 1 / 2) * pow2 (qmax fmt)"
    using pow2_pos [of "qmax fmt"] by simp
  finally show ?thesis by (simp only: overflow_threshold_def)
qed

lemma correctly_rounded_exact:
  assumes "correctly_rounded fmt s x r" "is_finite c" "is_val fmt c" "valof c = x"
  shows "is_finite r \<and> valof r = x"
proof -
  from is_val_below_threshold [OF assms(2,3)] assms(1,4) have f: "is_finite r"
    by (simp add: correctly_rounded_def)
  with assms(1,2,3) have "\<bar>valof r - x\<bar> \<le> \<bar>valof c - x\<bar>"
    unfolding correctly_rounded_def by blast
  with assms(4) have "valof r = x" by simp
  with f show ?thesis by simp
qed

lemma quotient_value:
  assumes "n \<noteq> 0"
  shows "valof (Fin s m e) / valof (Fin t n f) =
           (if s \<noteq> t then - 1 else 1) * (of_nat m / of_nat n * pow2 (e - f))"
  using assms pow2_pos [of f] by (simp add: valof_def pow2_diff)

lemma fp_div_finite:
  assumes "valid_format fmt" "is_finite a" "is_finite b" "\<not> is_zero b"
  shows "correctly_rounded fmt (sign_bit a \<noteq> sign_bit b) (valof a / valof b) (fp_div fmt a b)"
proof -
  from assms(2,3) obtain s m e t n f where ab: "a = Fin s m e" "b = Fin t n f"
    by (cases a; cases b) (simp_all add: is_finite_def)
  with assms(4) have n: "0 < n" by (simp add: is_zero_def)
  from round_fp_correctly_rounded [OF n assms(1), of "s \<noteq> t" m "e - f"] n show ?thesis
    by (simp only: ab quotient_value sign_bit_def fp.case fp_div.simps) simp
qed

section \<open>Division\<close>

text \<open>
  C4: \<^verbatim>\<open>__divtf3(a, b)\<close> is the native division of \<open>a\<close> by \<open>b\<close> in the
  \<^verbatim>\<open>long double\<close> format. For all finite operands with a nonzero divisor the result is
  the quotient of the two numbers rounded to nearest, ties to even: its sign is the
  exclusive or of the operands' signs, it is the nearest datum of the format, it is an
  infinity exactly when the quotient reaches the overflow threshold, and it is the
  quotient itself whenever that is a number of the format (\<open>1/3\<close> in the 64-bit format as
  an instance). A zero divisor raises no fault and gives a value: a nonzero finite
  dividend gives the infinity whose sign is the exclusive or of the operands' signs, and
  a zero dividend gives a NaN. A NaN operand gives a NaN.
\<close>

theorem divtf3_correctly_rounded:
  "divtf3 ld a b = fp_div ld a b \<and>
   (is_nan a \<or> is_nan b \<longrightarrow> is_nan (divtf3 ld a b)) \<and>
   (is_finite a \<and> \<not> is_zero a \<and> is_zero b \<longrightarrow>
      divtf3 ld a b = Inf (sign_bit a \<noteq> sign_bit b)) \<and>
   (is_zero a \<and> is_zero b \<longrightarrow> is_nan (divtf3 ld a b)) \<and>
   (valid_format ld \<and> is_finite a \<and> is_finite b \<and> \<not> is_zero b \<longrightarrow>
      \<not> is_nan (divtf3 ld a b) \<and>
      sign_bit (divtf3 ld a b) = (sign_bit a \<noteq> sign_bit b) \<and>
      correctly_rounded ld (sign_bit a \<noteq> sign_bit b) (valof a / valof b) (divtf3 ld a b)) \<and>
   (valid_format ld \<and> is_finite a \<and> is_finite b \<and> \<not> is_zero b \<and>
    is_finite c \<and> is_val ld c \<and> valof c = valof a / valof b \<longrightarrow>
      is_finite (divtf3 ld a b) \<and> valof (divtf3 ld a b) = valof a / valof b) \<and>
   divtf3 binary64 (Fin False 1 0) (Fin False 3 0) = Fin False 6004799503160661 (- 54)"
proof -
  have i: "divtf3 binary64 (Fin False 1 0) (Fin False 3 0) = Fin False 6004799503160661 (- 54)"
    by (simp add: divtf3_def round_fp_def binary64_simps bitlen_numeral_simps bitlen_one
        scaled_def rne_def Let_def)
  have z: "(is_nan a \<or> is_nan b \<longrightarrow> is_nan (divtf3 ld a b)) \<and>
   (is_finite a \<and> \<not> is_zero a \<and> is_zero b \<longrightarrow>
      divtf3 ld a b = Inf (sign_bit a \<noteq> sign_bit b)) \<and>
   (is_zero a \<and> is_zero b \<longrightarrow> is_nan (divtf3 ld a b))"
    by (cases a; cases b)
      (simp_all add: divtf3_def is_finite_def is_zero_def is_nan_def sign_bit_def)
  have r: "correctly_rounded ld (sign_bit a \<noteq> sign_bit b) (valof a / valof b) (divtf3 ld a b)"
    if "valid_format ld \<and> is_finite a \<and> is_finite b \<and> \<not> is_zero b"
    using fp_div_finite [of ld a b] that by (simp add: divtf3_def)
  have x: "is_finite (divtf3 ld a b) \<and> valof (divtf3 ld a b) = valof a / valof b"
    if "valid_format ld \<and> is_finite a \<and> is_finite b \<and> \<not> is_zero b \<and>
        is_finite c \<and> is_val ld c \<and> valof c = valof a / valof b"
    using correctly_rounded_exact [OF r, of c] that by blast
  have d: "divtf3 ld a b = fp_div ld a b"
    by (simp add: divtf3_def)
  from r have s: "valid_format ld \<and> is_finite a \<and> is_finite b \<and> \<not> is_zero b \<longrightarrow>
      \<not> is_nan (divtf3 ld a b) \<and>
      sign_bit (divtf3 ld a b) = (sign_bit a \<noteq> sign_bit b) \<and>
      correctly_rounded ld (sign_bit a \<noteq> sign_bit b) (valof a / valof b) (divtf3 ld a b)"
    by (simp add: correctly_rounded_def)
  from d z s x i show ?thesis by (intro conjI impI) blast+
qed

theorem divtf3_correctly_rounded_witness:
  "is_finite (Fin True 3 0) \<and> \<not> is_zero (Fin True 3 0) \<and> is_zero (Fin False 0 0) \<and>
   divtf3 binary64 (Fin True 3 0) (Fin False 0 0) = Inf True \<and>
   divtf3 binary64 (Fin True 3 0) (Fin True 0 0) = Inf False \<and>
   is_zero (Fin True 0 0) \<and> is_nan (divtf3 binary64 (Fin True 0 0) (Fin False 0 0)) \<and>
   is_nan NaN \<and> is_nan (divtf3 binary64 NaN (Fin False 1 0)) \<and>
   valid_format binary64 \<and> is_finite (Fin False 1 0) \<and> is_finite (Fin True 3 0) \<and>
   sign_bit (divtf3 binary64 (Fin False 1 0) (Fin True 3 0)) \<and>
   correctly_rounded binary64 True (valof (Fin False 1 0) / valof (Fin True 3 0))
     (divtf3 binary64 (Fin False 1 0) (Fin True 3 0)) \<and>
   is_finite (Fin False 1 2) \<and> \<not> is_zero (Fin False 1 2) \<and>
   is_finite (Fin True 3 (- 2)) \<and> is_val binary64 (Fin True 3 (- 2)) \<and>
   valof (Fin True 3 (- 2)) = valof (Fin True 3 0) / valof (Fin False 1 2) \<and>
   valof (divtf3 binary64 (Fin True 3 0) (Fin False 1 2)) = - (3 / 4)"
proof -
  have h: "is_finite (Fin True 3 0)" "\<not> is_zero (Fin True 3 0)" "is_zero (Fin False 0 0)"
    "is_zero (Fin True 0 0)" "is_nan NaN" "valid_format binary64" "is_finite (Fin False 1 0)"
    "is_finite (Fin False 1 2)" "\<not> is_zero (Fin False 1 2)"
    "is_finite (Fin True 3 (- 2))" "is_val binary64 (Fin True 3 (- 2))"
    by (simp_all add: is_finite_def is_zero_def is_nan_def valid_format_def binary64_simps
        is_val_def) (simp add: binary64_def)
  have v: "valof (Fin True 3 (- 2)) = valof (Fin True 3 0) / valof (Fin False 1 2)"
    "valof (Fin True 3 0) / valof (Fin False 1 2) = - (3 / 4)"
    by (simp_all add: valof_def pow2_def)
  have s: "sign_bit (Fin True 3 0) \<noteq> sign_bit (Fin False 0 0)"
    "sign_bit (Fin True 3 0) = sign_bit (Fin True 0 0)"
    by (simp_all add: sign_bit_def)
  note t1 = divtf3_correctly_rounded [of binary64 "Fin True 3 0" "Fin False 0 0"]
  note t2 = divtf3_correctly_rounded [of binary64 "Fin True 3 0" "Fin True 0 0"]
  note t3 = divtf3_correctly_rounded [of binary64 "Fin True 0 0" "Fin False 0 0"]
  note t4 = divtf3_correctly_rounded [of binary64 NaN "Fin False 1 0"]
  note t5 = divtf3_correctly_rounded [of binary64 "Fin False 1 0" "Fin True 3 0"]
  note t6 = divtf3_correctly_rounded [of binary64 "Fin True 3 0" "Fin False 1 2" "Fin True 3 (- 2)"]
  from t1 h s have a1: "divtf3 binary64 (Fin True 3 0) (Fin False 0 0) = Inf True" by simp
  from t2 h s have a2: "divtf3 binary64 (Fin True 3 0) (Fin True 0 0) = Inf False" by simp
  from t3 h have a3: "is_nan (divtf3 binary64 (Fin True 0 0) (Fin False 0 0))" by blast
  from t4 h have a4: "is_nan (divtf3 binary64 NaN (Fin False 1 0))" by blast
  have nz: "\<not> is_zero (Fin True 3 0)" by (simp add: is_zero_def)
  have s3: "(sign_bit (Fin False 1 0) \<noteq> sign_bit (Fin True 3 0)) = True"
    by (simp add: sign_bit_def)
  from t5 [THEN conjunct2, unfolded s3] h nz
  have a5: "sign_bit (divtf3 binary64 (Fin False 1 0) (Fin True 3 0))"
    "correctly_rounded binary64 True (valof (Fin False 1 0) / valof (Fin True 3 0))
       (divtf3 binary64 (Fin False 1 0) (Fin True 3 0))"
    by blast+
  from t6 [THEN conjunct2] h nz v(1)
  have "valof (divtf3 binary64 (Fin True 3 0) (Fin False 1 2)) =
      valof (Fin True 3 0) / valof (Fin False 1 2)"
    by blast
  then have a6: "valof (divtf3 binary64 (Fin True 3 0) (Fin False 1 2)) = - (3 / 4)"
    by (simp only: v(2))
  from h v(1) a1 a2 a3 a4 a5 a6 show ?thesis by (intro conjI)
qed

end
